theory Spec2Isabelle
  imports Main "HOL-Library.Word" "HOL-Library.Multiset" "HOL-Library.Sublist"
begin

unbundle bit_operations_syntax

section \<open>Data model\<close>

text \<open>
  A Python \<open>str\<close> is a sequence of Unicode code points; a code point is a natural number.
  The strings over the two characters \<open>'0'\<close> and \<open>'1'\<close> that the program builds
  (codes, the encoded text, the padded text) are lists of booleans: \<open>False\<close> is the
  character \<open>'0'\<close>, \<open>True\<close> is the character \<open>'1'\<close>. A byte of a \<open>bytes\<close> or
  \<open>bytearray\<close> value is an 8-bit word.
\<close>

type_synonym str = "nat list"
type_synonym bits = "bool list"
type_synonym byte = "8 word"

text \<open>
  \<open>HuffmanNode\<close>: the constructor sets \<open>left\<close> and \<open>right\<close> to \<open>None\<close>; the only nodes
  that get children are the ones \<open>_merge_nodes\<close> creates with \<open>char = None\<close>, and it sets
  both children. A node is therefore a leaf with a \<open>char\<close> (a dictionary key, never
  \<open>None\<close>) or a merged node with two children.
\<close>

datatype HuffmanNode =
    Leaf str int
  | Merged int HuffmanNode HuffmanNode

fun freq :: "HuffmanNode \<Rightarrow> int" where
  "freq (Leaf c f) = f"
| "freq (Merged f l r) = f"

text \<open>\<open>HuffmanNode.__lt__\<close>: nodes are compared by frequency alone.\<close>

definition node_lt :: "HuffmanNode \<Rightarrow> HuffmanNode \<Rightarrow> bool" where
  "node_lt self other = (freq self < freq other)"

datatype error =
    IndexError string
  | KeyError str
  | AttributeError
  | ValueError string
  | ZeroDivisionError
  | UnicodeEncodeError
  | UnicodeDecodeError
  | JSONDecodeError
  | FileNotFoundError
  | Unmodelled

section \<open>The priority queue: Python's heapq on a list of nodes\<close>

text \<open>
  \<open>heapq._siftdown(heap, startpos, pos)\<close>: \<open>newitem = heap[pos]\<close> is moved towards the
  root while it is smaller than its parent.
\<close>

function siftdown_loop :: "HuffmanNode list \<Rightarrow> nat \<Rightarrow> HuffmanNode \<Rightarrow> nat \<Rightarrow> HuffmanNode list" where
  "siftdown_loop heap startpos newitem pos =
     (if pos > startpos then
        (let parentpos = (pos - 1) div 2;
             parent = heap ! parentpos
         in if node_lt newitem parent
            then siftdown_loop (heap[pos := parent]) startpos newitem parentpos
            else heap[pos := newitem])
      else heap[pos := newitem])"
  by pat_completeness auto
termination
  by (relation "measure (\<lambda>(heap, startpos, newitem, pos). pos)") auto

declare siftdown_loop.simps [simp del]

definition siftdown :: "HuffmanNode list \<Rightarrow> nat \<Rightarrow> nat \<Rightarrow> HuffmanNode list" where
  "siftdown heap startpos pos = siftdown_loop heap startpos (heap ! pos) pos"

text \<open>
  \<open>heapq._siftup(heap, pos)\<close>: the smaller child is moved up until a leaf position is
  reached; the loop returns the heap and that position.
\<close>

function siftup_loop :: "HuffmanNode list \<Rightarrow> nat \<Rightarrow> nat \<Rightarrow> HuffmanNode list \<times> nat" where
  "siftup_loop heap endpos pos =
     (let childpos = 2 * pos + 1
      in if childpos < endpos then
           (let rightpos = childpos + 1;
                childpos' = (if rightpos < endpos \<and> \<not> node_lt (heap ! childpos) (heap ! rightpos)
                             then rightpos else childpos)
            in siftup_loop (heap[pos := heap ! childpos']) endpos childpos')
         else (heap, pos))"
  by pat_completeness auto
termination
  by (relation "measure (\<lambda>(heap, endpos, pos). endpos - pos)") auto

declare siftup_loop.simps [simp del]

definition siftup :: "HuffmanNode list \<Rightarrow> nat \<Rightarrow> HuffmanNode list" where
  "siftup heap pos =
     (let endpos = length heap;
          startpos = pos;
          newitem = heap ! pos
      in case siftup_loop heap endpos pos of
           (heap', pos') \<Rightarrow> siftdown (heap'[pos' := newitem]) startpos pos')"

text \<open>\<open>heapq.heappush(heap, item)\<close>.\<close>

definition heappush :: "HuffmanNode list \<Rightarrow> HuffmanNode \<Rightarrow> HuffmanNode list" where
  "heappush heap item = siftdown (heap @ [item]) 0 (length (heap @ [item]) - 1)"

text \<open>
  \<open>heapq.heappop(heap)\<close>: \<open>heap.pop()\<close> raises \<open>IndexError\<close> on the empty list; the result
  is the popped item and the heap that is left.
\<close>

definition heappop :: "HuffmanNode list \<Rightarrow> error + (HuffmanNode \<times> HuffmanNode list)" where
  "heappop heap =
     (if heap = [] then Inl (IndexError ''index out of range'')
      else (let lastelt = last heap; heap1 = butlast heap
            in if heap1 \<noteq> [] then
                 (let returnitem = heap1 ! 0
                  in Inr (returnitem, siftup (heap1[0 := lastelt]) 0))
               else Inr (lastelt, heap1)))"

lemma length_siftdown_loop [simp]:
  "length (siftdown_loop heap startpos newitem pos) = length heap"
proof (induction heap startpos newitem pos rule: siftdown_loop.induct)
  case (1 heap startpos newitem pos)
  then show ?case
    by (subst siftdown_loop.simps) (simp add: Let_def)
qed

lemma length_siftdown [simp]: "length (siftdown heap startpos pos) = length heap"
  by (simp add: siftdown_def)

lemma length_siftup_loop [simp]: "length (fst (siftup_loop heap endpos pos)) = length heap"
proof (induction heap endpos pos rule: siftup_loop.induct)
  case (1 heap endpos pos)
  then show ?case
    by (subst siftup_loop.simps) (simp add: Let_def)
qed

lemma length_siftup [simp]: "length (siftup heap pos) = length heap"
proof -
  obtain h p where hp: "siftup_loop heap (length heap) pos = (h, p)"
    by (cases "siftup_loop heap (length heap) pos")
  have "length h = length heap"
    using length_siftup_loop [of heap "length heap" pos] by (simp add: hp)
  then show ?thesis by (simp add: siftup_def hp)
qed

lemma length_heappush [simp]: "length (heappush heap item) = Suc (length heap)"
  by (simp add: heappush_def)

lemma length_heappop:
  "heappop heap = Inr (item, heap') \<Longrightarrow> length heap = Suc (length heap')"
  by (cases heap rule: rev_cases) (auto simp: heappop_def Let_def split: if_splits)

lemma heappop_nonempty: "heap \<noteq> [] \<Longrightarrow> \<exists>item heap'. heappop heap = Inr (item, heap')"
  by (simp add: heappop_def Let_def)

section \<open>Frequency analysis and tree construction\<close>

text \<open>
  A \<open>dict\<close> keeps its keys in insertion order and the program depends on that order (the
  heap is filled in iteration order, and \<open>json.dumps\<close> writes the items in iteration
  order), so a dictionary is an association list in insertion order. \<open>dict_incr d k\<close> is
  \<open>d[k] += 1\<close> on a \<open>defaultdict(int)\<close>: a new key is appended with count 1, an old key
  keeps its position.
\<close>

type_synonym frequency = "(str \<times> int) list"

fun dict_incr :: "frequency \<Rightarrow> str \<Rightarrow> frequency" where
  "dict_incr [] k = [(k, 1)]"
| "dict_incr ((k', v) # d) k = (if k' = k then (k', v + 1) # d else (k', v) # dict_incr d k)"

text \<open>\<open>_make_frequency_dict\<close>: each character of the text is a key of length one.\<close>

fun make_frequency_loop :: "frequency \<Rightarrow> str \<Rightarrow> frequency" where
  "make_frequency_loop frequency [] = frequency"
| "make_frequency_loop frequency (character # text) =
     make_frequency_loop (dict_incr frequency [character]) text"

definition make_frequency_dict :: "str \<Rightarrow> frequency" where
  "make_frequency_dict text = make_frequency_loop [] text"

text \<open>\<open>_build_heap\<close>: one leaf per key, pushed in iteration order onto \<open>self.heap\<close>.\<close>

fun build_heap :: "HuffmanNode list \<Rightarrow> frequency \<Rightarrow> HuffmanNode list" where
  "build_heap heap [] = heap"
| "build_heap heap ((key, v) # frequency) = build_heap (heappush heap (Leaf key v)) frequency"

text \<open>\<open>_merge_nodes\<close>: the two smallest nodes are popped and their parent is pushed.\<close>

function merge_nodes :: "HuffmanNode list \<Rightarrow> error + HuffmanNode list" where
  "merge_nodes heap =
     (if length heap > 1 then
        (case heappop heap of
           Inl e \<Rightarrow> Inl e
         | Inr (node1, heap1) \<Rightarrow>
             (case heappop heap1 of
                Inl e \<Rightarrow> Inl e
              | Inr (node2, heap2) \<Rightarrow>
                  merge_nodes (heappush heap2 (Merged (freq node1 + freq node2) node1 node2))))
      else Inr heap)"
  by pat_completeness auto
termination
  by (relation "measure length") (auto dest!: length_heappop)

declare merge_nodes.simps [simp del]

text \<open>\<open>root = self.heap[0]\<close> raises \<open>IndexError\<close> on the empty heap.\<close>

definition heap_root :: "HuffmanNode list \<Rightarrow> error + HuffmanNode" where
  "heap_root heap = (case heap of [] \<Rightarrow> Inl (IndexError ''list index out of range'') | root # _ \<Rightarrow> Inr root)"

text \<open>
  The tree of a frequency table, as both \<open>compress_file\<close> and \<open>decompress_file\<close> build it:
  \<open>self.heap = []\<close>, \<open>_build_heap\<close>, \<open>_merge_nodes\<close>, \<open>self.heap[0]\<close>.
\<close>

definition build_tree :: "frequency \<Rightarrow> error + HuffmanNode" where
  "build_tree frequency =
     (case merge_nodes (build_heap [] frequency) of
        Inl e \<Rightarrow> Inl e
      | Inr heap \<Rightarrow> heap_root heap)"

section \<open>Code table\<close>

text \<open>
  \<open>_make_codes_helper\<close> updates the two dictionaries \<open>self.codes\<close> and
  \<open>self.reverse_mapping\<close>; they are only read by key, so they are maps. The argument
  \<open>root\<close> is never \<open>None\<close>: a merged node has both children.
\<close>

type_synonym codes = "str \<rightharpoonup> bits"
type_synonym reverse_mapping = "bits \<rightharpoonup> str"

fun make_codes_helper ::
  "HuffmanNode \<Rightarrow> bits \<Rightarrow> codes \<times> reverse_mapping \<Rightarrow> codes \<times> reverse_mapping" where
  "make_codes_helper (Leaf c f) current_code (codes, reverse_mapping) =
     (codes(c \<mapsto> current_code), reverse_mapping(current_code \<mapsto> c))"
| "make_codes_helper (Merged f l r) current_code st =
     make_codes_helper r (current_code @ [True])
       (make_codes_helper l (current_code @ [False]) st)"

text \<open>\<open>self.codes = {}\<close>, \<open>self.reverse_mapping = {}\<close>, \<open>_make_codes_helper(root, "")\<close>.\<close>

definition make_codes :: "HuffmanNode \<Rightarrow> codes" where
  "make_codes root = fst (make_codes_helper root [] (Map.empty, Map.empty))"

section \<open>Encoding, padding and bytes\<close>

text \<open>\<open>_get_encoded_text\<close>: \<open>self.codes[character]\<close> raises \<open>KeyError\<close> on a missing key.\<close>

fun get_encoded_loop :: "codes \<Rightarrow> bits \<Rightarrow> str \<Rightarrow> error + bits" where
  "get_encoded_loop codes encoded_text [] = Inr encoded_text"
| "get_encoded_loop codes encoded_text (character # text) =
     (case codes [character] of
        None \<Rightarrow> Inl (KeyError [character])
      | Some code \<Rightarrow> get_encoded_loop codes (encoded_text @ code) text)"

definition get_encoded_text :: "codes \<Rightarrow> str \<Rightarrow> error + bits" where
  "get_encoded_text codes text = get_encoded_loop codes [] text"

text \<open>
  \<open>"{0:08b}".format(n)\<close>: the binary digits of \<open>n\<close>, most significant first, filled with
  \<open>'0'\<close> on the left to a width of at least 8.
\<close>

fun bin_digits :: "nat \<Rightarrow> bits" where
  "bin_digits n = (if n < 2 then [n = 1] else bin_digits (n div 2) @ [n mod 2 = 1])"

declare bin_digits.simps [simp del]

definition format_08b :: "nat \<Rightarrow> bits" where
  "format_08b n = replicate (8 - length (bin_digits n)) False @ bin_digits n"

text \<open>\<open>int(s, 2)\<close> on a non-empty string of binary digits.\<close>

definition int2 :: "bits \<Rightarrow> nat" where
  "int2 s = foldl (\<lambda>acc b. 2 * acc + (if b then 1 else 0)) 0 s"

text \<open>\<open>int(s, 2)\<close> raises \<open>ValueError\<close> on the empty string.\<close>

definition py_int2 :: "bits \<Rightarrow> error + nat" where
  "py_int2 s = (if s = [] then Inl (ValueError (''invalid literal for int() with base 2: ''
                                                @ [CHR 0x27, CHR 0x27]))
                else Inr (int2 s))"

text \<open>\<open>_pad_encoded_text\<close>.\<close>

definition pad_encoded_text :: "bits \<Rightarrow> bits" where
  "pad_encoded_text encoded_text =
     (let extra_padding = 8 - length encoded_text mod 8;
          encoded_text1 = encoded_text @ replicate extra_padding False;
          padded_info = format_08b extra_padding
      in padded_info @ encoded_text1)"

text \<open>
  \<open>_get_byte_array\<close>: the slices \<open>[i:i+8]\<close> for \<open>i\<close> in \<open>range(0, len, 8)\<close> are never
  empty and have at most 8 digits, so \<open>int(byte, 2)\<close> is below 256 and
  \<open>bytearray.append\<close> accepts it.
\<close>

function get_byte_array :: "bits \<Rightarrow> byte list" where
  "get_byte_array padded_encoded_text =
     (if padded_encoded_text = [] then []
      else of_nat (int2 (take 8 padded_encoded_text)) # get_byte_array (drop 8 padded_encoded_text))"
  by pat_completeness auto
termination
  by (relation "measure length") auto

declare get_byte_array.simps [simp del]

section \<open>Decoding\<close>

text \<open>
  \<open>_decode_text\<close>: at a leaf, \<open>current.left\<close> and \<open>current.right\<close> are \<open>None\<close>, and
  \<open>None.char\<close> raises \<open>AttributeError\<close>; this happens only when the root itself is a leaf,
  since \<open>current\<close> is reset to the root as soon as it reaches a leaf.
\<close>

fun decode_loop :: "HuffmanNode \<Rightarrow> HuffmanNode \<Rightarrow> str \<Rightarrow> bits \<Rightarrow> error + str" where
  "decode_loop root current decoded_text [] = Inr decoded_text"
| "decode_loop root (Leaf c f) decoded_text (b # encoded_text) = Inl AttributeError"
| "decode_loop root (Merged f l r) decoded_text (b # encoded_text) =
     (case (if \<not> b then l else r) of
        Leaf c f' \<Rightarrow> decode_loop root root (decoded_text @ c) encoded_text
      | Merged f' l' r' \<Rightarrow> decode_loop root (Merged f' l' r') decoded_text encoded_text)"

definition decode_text :: "bits \<Rightarrow> HuffmanNode \<Rightarrow> error + str" where
  "decode_text encoded_text root = decode_loop root root [] encoded_text"

text \<open>
  The unpadding steps of \<open>decompress_file\<close>. \<open>bit_string[:-1 * extra_padding]\<close> is the
  empty string when \<open>extra_padding\<close> is 0 (the slice \<open>[:0]\<close>) or exceeds the length.
\<close>

definition bytes_to_bit_string :: "byte list \<Rightarrow> bits" where
  "bytes_to_bit_string byte_array = concat (map (\<lambda>byte. format_08b (unat byte)) byte_array)"

definition slice_to_minus :: "bits \<Rightarrow> nat \<Rightarrow> bits" where
  "slice_to_minus bit_string extra_padding =
     (if extra_padding = 0 then [] else take (length bit_string - extra_padding) bit_string)"

definition remove_padding :: "bits \<Rightarrow> error + bits" where
  "remove_padding bit_string =
     (let padded_info = take 8 bit_string
      in case py_int2 padded_info of
           Inl e \<Rightarrow> Inl e
         | Inr extra_padding \<Rightarrow> Inr (slice_to_minus (drop 8 bit_string) extra_padding))"

section \<open>Text encoding\<close>

text \<open>
  \<open>str.encode('utf-8')\<close>: a surrogate (U+D800 to U+DFFF) cannot be encoded and raises
  \<open>UnicodeEncodeError\<close>. A Python character is below U+110000; a larger number is no
  character and is rejected here in the same way.
\<close>

definition utf8_char :: "nat \<Rightarrow> byte list option" where
  "utf8_char c =
     (if c < 0x80 then Some [of_nat c]
      else if c < 0x800 then Some [of_nat (0xC0 + c div 64), of_nat (0x80 + c mod 64)]
      else if c < 0x10000 then
        (if 0xD800 \<le> c \<and> c \<le> 0xDFFF then None
         else Some [of_nat (0xE0 + c div 4096), of_nat (0x80 + c div 64 mod 64),
                    of_nat (0x80 + c mod 64)])
      else if c < 0x110000 then
        Some [of_nat (0xF0 + c div 262144), of_nat (0x80 + c div 4096 mod 64),
              of_nat (0x80 + c div 64 mod 64), of_nat (0x80 + c mod 64)]
      else None)"

fun utf8_encode :: "str \<Rightarrow> error + byte list" where
  "utf8_encode [] = Inr []"
| "utf8_encode (c # cs) =
     (case utf8_char c of
        None \<Rightarrow> Inl UnicodeEncodeError
      | Some bs \<Rightarrow>
          (case utf8_encode cs of Inl e \<Rightarrow> Inl e | Inr rest \<Rightarrow> Inr (bs @ rest)))"

text \<open>
  \<open>bytes.decode('utf-8')\<close> with strict error handling: overlong forms, surrogates,
  values above U+10FFFF, stray continuation bytes and truncated sequences raise
  \<open>UnicodeDecodeError\<close>.
\<close>

definition cont :: "nat \<Rightarrow> bool" where
  "cont b = (0x80 \<le> b \<and> b \<le> 0xBF)"

fun utf8_decode :: "byte list \<Rightarrow> error + str" where
  "utf8_decode [] = Inr []"
| "utf8_decode (x0 # xs) =
     (let b0 = unat x0 in
      if b0 < 0x80 then
        (case utf8_decode xs of Inl e \<Rightarrow> Inl e | Inr cs \<Rightarrow> Inr (b0 # cs))
      else if 0xC2 \<le> b0 \<and> b0 \<le> 0xDF then
        (case xs of
           x1 # ys \<Rightarrow>
             (let b1 = unat x1 in
              if cont b1 then
                (case utf8_decode ys of
                   Inl e \<Rightarrow> Inl e
                 | Inr cs \<Rightarrow> Inr (((b0 - 0xC0) * 64 + (b1 - 0x80)) # cs))
              else Inl UnicodeDecodeError)
         | _ \<Rightarrow> Inl UnicodeDecodeError)
      else if 0xE0 \<le> b0 \<and> b0 \<le> 0xEF then
        (case xs of
           x1 # x2 # ys \<Rightarrow>
             (let b1 = unat x1; b2 = unat x2 in
              if (if b0 = 0xE0 then 0xA0 \<le> b1 \<and> b1 \<le> 0xBF
                  else if b0 = 0xED then 0x80 \<le> b1 \<and> b1 \<le> 0x9F
                  else cont b1) \<and> cont b2 then
                (case utf8_decode ys of
                   Inl e \<Rightarrow> Inl e
                 | Inr cs \<Rightarrow>
                     Inr (((b0 - 0xE0) * 4096 + (b1 - 0x80) * 64 + (b2 - 0x80)) # cs))
              else Inl UnicodeDecodeError)
         | _ \<Rightarrow> Inl UnicodeDecodeError)
      else if 0xF0 \<le> b0 \<and> b0 \<le> 0xF4 then
        (case xs of
           x1 # x2 # x3 # ys \<Rightarrow>
             (let b1 = unat x1; b2 = unat x2; b3 = unat x3 in
              if (if b0 = 0xF0 then 0x90 \<le> b1 \<and> b1 \<le> 0xBF
                  else if b0 = 0xF4 then 0x80 \<le> b1 \<and> b1 \<le> 0x8F
                  else cont b1) \<and> cont b2 \<and> cont b3 then
                (case utf8_decode ys of
                   Inl e \<Rightarrow> Inl e
                 | Inr cs \<Rightarrow>
                     Inr (((b0 - 0xF0) * 262144 + (b1 - 0x80) * 4096 + (b2 - 0x80) * 64
                           + (b3 - 0x80)) # cs))
              else Inl UnicodeDecodeError)
         | _ \<Rightarrow> Inl UnicodeDecodeError)
      else Inl UnicodeDecodeError)"

text \<open>
  A file opened in text mode for reading translates \<open>"\r\n"\<close> and \<open>"\r"\<close> to
  \<open>"\n"\<close> (universal newlines).
\<close>

fun translate_newlines :: "str \<Rightarrow> str" where
  "translate_newlines [] = []"
| "translate_newlines [c] = (if c = 13 then [10] else [c])"
| "translate_newlines (c # d # cs) =
     (if c = 13 \<and> d = 10 then 10 # translate_newlines cs
      else if c = 13 then 10 # translate_newlines (d # cs)
      else c # translate_newlines (d # cs))"

text \<open>
  \<open>str.strip()\<close> removes the characters for which \<open>str.isspace\<close> holds from both ends.
\<close>

definition isspace :: "nat \<Rightarrow> bool" where
  "isspace c =
     ((9 \<le> c \<and> c \<le> 13) \<or> (28 \<le> c \<and> c \<le> 32) \<or> c = 0x85 \<or> c = 0xA0 \<or> c = 0x1680
      \<or> (0x2000 \<le> c \<and> c \<le> 0x200A) \<or> c = 0x2028 \<or> c = 0x2029 \<or> c = 0x202F
      \<or> c = 0x205F \<or> c = 0x3000)"

definition strip :: "str \<Rightarrow> str" where
  "strip s = rev (dropWhile isspace (rev (dropWhile isspace s)))"

text \<open>
  \<open>readline()\<close> on a binary file: the bytes up to and including the first \<open>b'\n'\<close>, or
  all bytes if there is none; the second component is what is left to read.
\<close>

fun readline :: "byte list \<Rightarrow> byte list \<times> byte list" where
  "readline [] = ([], [])"
| "readline (b # bs) =
     (if b = 10 then ([b], bs) else (case readline bs of (line, rest) \<Rightarrow> (b # line, rest)))"

section \<open>The content hash: SHA-256 (FIPS 180-4), as hashlib.sha256 computes it\<close>

type_synonym u32 = "32 word"

text \<open>
  The round constants (the first 32 bits of the fractional parts of the cube roots of
  the first 64 primes) and the initial hash value (of the square roots of the first
  8 primes), written in decimal.
\<close>

definition sha256_k :: "u32 list" where
  "sha256_k =
    [
     1116352408, 1899447441, 3049323471, 3921009573, 961987163, 1508970993,
     2453635748, 2870763221, 3624381080, 310598401, 607225278, 1426881987,
     1925078388, 2162078206, 2614888103, 3248222580, 3835390401, 4022224774,
     264347078, 604807628, 770255983, 1249150122, 1555081692, 1996064986,
     2554220882, 2821834349, 2952996808, 3210313671, 3336571891, 3584528711,
     113926993, 338241895, 666307205, 773529912, 1294757372, 1396182291,
     1695183700, 1986661051, 2177026350, 2456956037, 2730485921, 2820302411,
     3259730800, 3345764771, 3516065817, 3600352804, 4094571909, 275423344,
     430227734, 506948616, 659060556, 883997877, 958139571, 1322822218,
     1537002063, 1747873779, 1955562222, 2024104815, 2227730452, 2361852424,
     2428436474, 2756734187, 3204031479, 3329325298]"

definition sha256_h0 :: "u32 list" where
  "sha256_h0 =
    [
     1779033703, 3144134277, 1013904242, 2773480762, 1359893119, 2600822924,
     528734635, 1541459225]"

definition rotr :: "nat \<Rightarrow> u32 \<Rightarrow> u32" where
  "rotr n x = drop_bit n x OR push_bit (32 - n) x"

definition ch :: "u32 \<Rightarrow> u32 \<Rightarrow> u32 \<Rightarrow> u32" where
  "ch x y z = (x AND y) XOR (NOT x AND z)"

definition maj :: "u32 \<Rightarrow> u32 \<Rightarrow> u32 \<Rightarrow> u32" where
  "maj x y z = (x AND y) XOR (x AND z) XOR (y AND z)"

definition bsig0 :: "u32 \<Rightarrow> u32" where
  "bsig0 x = rotr 2 x XOR rotr 13 x XOR rotr 22 x"

definition bsig1 :: "u32 \<Rightarrow> u32" where
  "bsig1 x = rotr 6 x XOR rotr 11 x XOR rotr 25 x"

definition ssig0 :: "u32 \<Rightarrow> u32" where
  "ssig0 x = rotr 7 x XOR rotr 18 x XOR drop_bit 3 x"

definition ssig1 :: "u32 \<Rightarrow> u32" where
  "ssig1 x = rotr 17 x XOR rotr 19 x XOR drop_bit 10 x"

text \<open>
  Message padding: the byte 0x80, zero bytes up to 56 modulo 64, and the length of the
  message in bits as 8 bytes, most significant first.
\<close>

definition be_bytes64 :: "64 word \<Rightarrow> byte list" where
  "be_bytes64 n = map (\<lambda>i. ucast (drop_bit (8 * (7 - i)) n)) [0..<8]"

definition sha256_pad :: "byte list \<Rightarrow> byte list" where
  "sha256_pad m =
     m @ [0x80] @ replicate ((55 + 64 - length m mod 64) mod 64) 0
       @ be_bytes64 (of_nat (8 * length m))"

definition be_word :: "byte list \<Rightarrow> u32" where
  "be_word bs = foldl (\<lambda>w b. push_bit 8 w OR ucast b) 0 bs"

fun words_of :: "nat \<Rightarrow> byte list \<Rightarrow> u32 list" where
  "words_of 0 bs = []"
| "words_of (Suc n) bs = be_word (take 4 bs) # words_of n (drop 4 bs)"

fun schedule :: "nat \<Rightarrow> u32 list \<Rightarrow> u32 list" where
  "schedule 0 w = w"
| "schedule (Suc n) w =
     schedule n (w @ [ssig1 (w ! (length w - 2)) + w ! (length w - 7)
                      + ssig0 (w ! (length w - 15)) + w ! (length w - 16)])"

type_synonym sha_state = "u32 \<times> u32 \<times> u32 \<times> u32 \<times> u32 \<times> u32 \<times> u32 \<times> u32"

definition sha256_round :: "sha_state \<Rightarrow> u32 \<times> u32 \<Rightarrow> sha_state" where
  "sha256_round s kw =
     (case s of (a, b, c, d, e, f, g, h) \<Rightarrow>
        (let t1 = h + bsig1 e + ch e f g + fst kw + snd kw;
             t2 = bsig0 a + maj a b c
         in (t1 + t2, a, b, c, d + t1, e, f, g)))"

definition sha256_block :: "u32 list \<Rightarrow> byte list \<Rightarrow> u32 list" where
  "sha256_block hs block =
     (let w = schedule 48 (words_of 16 block);
          s0 = (hs ! 0, hs ! 1, hs ! 2, hs ! 3, hs ! 4, hs ! 5, hs ! 6, hs ! 7)
      in case foldl sha256_round s0 (zip sha256_k w) of
           (a, b, c, d, e, f, g, h) \<Rightarrow>
             [hs ! 0 + a, hs ! 1 + b, hs ! 2 + c, hs ! 3 + d,
              hs ! 4 + e, hs ! 5 + f, hs ! 6 + g, hs ! 7 + h])"

function sha256_blocks :: "u32 list \<Rightarrow> byte list \<Rightarrow> u32 list" where
  "sha256_blocks hs bs =
     (if length bs < 64 then hs else sha256_blocks (sha256_block hs (take 64 bs)) (drop 64 bs))"
  by pat_completeness auto
termination
  by (relation "measure (\<lambda>(hs, bs). length bs)") auto

declare sha256_blocks.simps [simp del]

text \<open>\<open>hexdigest()\<close>: 64 lower-case hexadecimal digits.\<close>

definition hex_digit :: "nat \<Rightarrow> nat" where
  "hex_digit d = (if d < 10 then 48 + d else 87 + d)"

definition hex_of_word :: "u32 \<Rightarrow> str" where
  "hex_of_word w = map (\<lambda>i. hex_digit (unat (drop_bit (4 * (7 - i)) w AND 15))) [0..<8]"

definition sha256_hexdigest :: "byte list \<Rightarrow> str" where
  "sha256_hexdigest m = concat (map hex_of_word (sha256_blocks sha256_h0 (sha256_pad m)))"

section \<open>The frequency table as JSON\<close>

text \<open>
  \<open>json.dumps(frequency)\<close> with the default settings (\<open>ensure_ascii=True\<close>, separators
  \<open>", "\<close> and \<open>": "\<close>): every key is a string, every value an integer. Inside a
  string, the quote and the backslash are escaped, the characters \<open>\b \f \n \r \t\<close>
  are written with their short escapes, every other character outside the range from
  space to \<open>~\<close> is written as \<open>\uXXXX\<close> with four lower-case hexadecimal digits, and a
  character above U+FFFF as two such escapes (a surrogate pair).
\<close>

definition hex4 :: "nat \<Rightarrow> str" where
  "hex4 n = [hex_digit (n div 4096 mod 16), hex_digit (n div 256 mod 16),
             hex_digit (n div 16 mod 16), hex_digit (n mod 16)]"

definition json_escape_char :: "nat \<Rightarrow> str" where
  "json_escape_char c =
     (if c = 34 then [92, 34]
      else if c = 92 then [92, 92]
      else if c = 10 then [92, 110]
      else if c = 13 then [92, 114]
      else if c = 9 then [92, 116]
      else if c = 8 then [92, 98]
      else if c = 12 then [92, 102]
      else if 32 \<le> c \<and> c \<le> 126 then [c]
      else if c < 0x10000 then [92, 117] @ hex4 c
      else [92, 117] @ hex4 (0xD800 + (c - 0x10000) div 1024 mod 1024)
           @ [92, 117] @ hex4 (0xDC00 + (c - 0x10000) mod 1024))"

definition json_string :: "str \<Rightarrow> str" where
  "json_string s = [34] @ concat (map json_escape_char s) @ [34]"

text \<open>\<open>str(n)\<close> for an integer: decimal digits, with a minus sign for a negative number.\<close>

fun dec_digits :: "nat \<Rightarrow> str" where
  "dec_digits n = (if n < 10 then [48 + n] else dec_digits (n div 10) @ [48 + n mod 10])"

declare dec_digits.simps [simp del]

definition int_str :: "int \<Rightarrow> str" where
  "int_str v = (if v < 0 then 45 # dec_digits (nat (- v)) else dec_digits (nat v))"

definition json_item :: "str \<times> int \<Rightarrow> str" where
  "json_item kv = json_string (fst kv) @ [58, 32] @ int_str (snd kv)"

fun json_items :: "frequency \<Rightarrow> str" where
  "json_items [] = []"
| "json_items [kv] = json_item kv"
| "json_items (kv # kvs) = json_item kv @ [44, 32] @ json_items kvs"

definition json_dumps :: "frequency \<Rightarrow> str" where
  "json_dumps frequency = [123] @ json_items frequency @ [125]"

text \<open>
  \<open>json.loads\<close>, for the documents whose top-level value is an object with integer
  values. The decoder accepts more (nested values, strings, floats, literals); for such
  a document the functions below return \<open>Unmodelled\<close>, which says nothing about what the
  program does. Every syntax error is a \<open>JSONDecodeError\<close>. Python's integers are
  unbounded, and so are the ones here.
\<close>

definition json_ws :: "nat \<Rightarrow> bool" where
  "json_ws c = (c = 32 \<or> c = 9 \<or> c = 10 \<or> c = 13)"

definition skip_ws :: "str \<Rightarrow> str" where
  "skip_ws s = dropWhile json_ws s"

definition hex_val :: "nat \<Rightarrow> nat option" where
  "hex_val c =
     (if 48 \<le> c \<and> c \<le> 57 then Some (c - 48)
      else if 97 \<le> c \<and> c \<le> 102 then Some (c - 87)
      else if 65 \<le> c \<and> c \<le> 70 then Some (c - 55)
      else None)"

text \<open>\<open>_decode_uXXXX\<close>: the next four characters as a hexadecimal number.\<close>

definition decode_uXXXX :: "str \<Rightarrow> nat option" where
  "decode_uXXXX s =
     (case s of
        a # b # c # d # _ \<Rightarrow>
          (case (hex_val a, hex_val b, hex_val c, hex_val d) of
             (Some x, Some y, Some z, Some w) \<Rightarrow> Some (x * 4096 + y * 256 + z * 16 + w)
           | _ \<Rightarrow> None)
      | _ \<Rightarrow> None)"

definition backslash :: "nat \<Rightarrow> nat option" where
  "backslash esc =
     (if esc = 34 then Some 34
      else if esc = 92 then Some 92
      else if esc = 47 then Some 47
      else if esc = 98 then Some 8
      else if esc = 102 then Some 12
      else if esc = 110 then Some 10
      else if esc = 114 then Some 13
      else if esc = 116 then Some 9
      else None)"

text \<open>
  \<open>scanstring\<close> (strict): the argument is the input after the opening quote; the result
  is the string and the input after the closing quote.
\<close>

function scanstring :: "str \<Rightarrow> str \<Rightarrow> error + (str \<times> str)" where
  "scanstring chunks [] = Inl JSONDecodeError"
| "scanstring chunks (c # s) =
     (if c = 34 then Inr (chunks, s)
      else if c = 92 then
        (case s of
           [] \<Rightarrow> Inl JSONDecodeError
         | esc # s1 \<Rightarrow>
             if esc \<noteq> 117 then
               (case backslash esc of
                  None \<Rightarrow> Inl JSONDecodeError
                | Some char \<Rightarrow> scanstring (chunks @ [char]) s1)
             else
               (case decode_uXXXX s1 of
                  None \<Rightarrow> Inl JSONDecodeError
                | Some uni \<Rightarrow>
                    if 0xD800 \<le> uni \<and> uni \<le> 0xDBFF \<and> take 2 (drop 4 s1) = [92, 117] then
                      (case decode_uXXXX (drop 6 s1) of
                         None \<Rightarrow> Inl JSONDecodeError
                       | Some uni2 \<Rightarrow>
                           if 0xDC00 \<le> uni2 \<and> uni2 \<le> 0xDFFF then
                             scanstring
                               (chunks @ [0x10000 + ((uni - 0xD800) * 1024 + (uni2 - 0xDC00))])
                               (drop 10 s1)
                           else scanstring (chunks @ [uni]) (drop 4 s1))
                    else scanstring (chunks @ [uni]) (drop 4 s1)))
      else if c < 32 then Inl JSONDecodeError
      else scanstring (chunks @ [c]) s)"
  by pat_completeness auto
termination
  by (relation "measure (\<lambda>(chunks, s). length s)") auto

declare scanstring.simps [simp del]

definition is_digit :: "nat \<Rightarrow> bool" where
  "is_digit c = (48 \<le> c \<and> c \<le> 57)"

definition dec_value :: "str \<Rightarrow> nat" where
  "dec_value ds = foldl (\<lambda>n d. 10 * n + (d - 48)) 0 ds"

text \<open>
  A number matches \<open>-?(0|[1-9][0-9]*)\<close>; followed by a fraction or an exponent it is a
  float.
\<close>

definition float_part :: "str \<Rightarrow> bool" where
  "float_part s =
     (case s of
        [] \<Rightarrow> False
      | c # s1 \<Rightarrow>
          if c = 46 then (case s1 of d # _ \<Rightarrow> is_digit d | [] \<Rightarrow> False)
          else if c = 101 \<or> c = 69 then
            (case s1 of
               [] \<Rightarrow> False
             | d # s2 \<Rightarrow>
                 if d = 43 \<or> d = 45 then (case s2 of d2 # _ \<Rightarrow> is_digit d2 | [] \<Rightarrow> False)
                 else is_digit d)
          else False)"

definition scan_digits :: "str \<Rightarrow> (str \<times> str) option" where
  "scan_digits s =
     (case s of
        [] \<Rightarrow> None
      | d # s1 \<Rightarrow>
          if d = 48 then Some ([d], s1)
          else if is_digit d then Some (d # takeWhile is_digit s1, dropWhile is_digit s1)
          else None)"

text \<open>
  \<open>scan_once\<close> at the start of a value. A character that starts no JSON value is a
  syntax error; a value that is not an integer is outside the model.
\<close>

definition scan_value :: "str \<Rightarrow> error + (int \<times> str)" where
  "scan_value s =
     (case s of
        [] \<Rightarrow> Inl JSONDecodeError
      | c # s1 \<Rightarrow>
          if c = 45 then
            (case scan_digits s1 of
               None \<Rightarrow> (case s1 of [] \<Rightarrow> Inl JSONDecodeError
                        | i # _ \<Rightarrow> if i = 73 then Inl Unmodelled else Inl JSONDecodeError)
             | Some (ds, rest) \<Rightarrow>
                 if float_part rest then Inl Unmodelled else Inr (- int (dec_value ds), rest))
          else if is_digit c then
            (case scan_digits s of
               None \<Rightarrow> Inl JSONDecodeError
             | Some (ds, rest) \<Rightarrow>
                 if float_part rest then Inl Unmodelled else Inr (int (dec_value ds), rest))
          else if c \<in> set [34, 123, 91, 110, 116, 102, 78, 73] then Inl Unmodelled
          else Inl JSONDecodeError)"

lemma scanstring_length:
  "scanstring chunks s = Inr (key, rest) \<Longrightarrow> length rest < length s"
proof (induction chunks s rule: scanstring.induct)
  case (1 chunks)
  then show ?case by (simp add: scanstring.simps)
next
  case (2 chunks c s)
  show ?case
  proof (cases "c = 34")
    case True
    with "2.prems" show ?thesis by (simp add: scanstring.simps)
  next
    case c34: False
    show ?thesis
    proof (cases "c = 92")
      case False
      with c34 "2.prems" have "c \<ge> 32" and "scanstring (chunks @ [c]) s = Inr (key, rest)"
        by (auto simp: scanstring.simps split: if_splits)
      with "2.IH"(5) [OF c34 False] show ?thesis by simp
    next
      case True
      show ?thesis
      proof (cases s)
        case Nil
        with True "2.prems" show ?thesis by (simp add: scanstring.simps)
      next
        case (Cons esc s1)
        show ?thesis
        proof (cases "esc = 117")
          case False
          with True Cons "2.prems" obtain char where
            "backslash esc = Some char" "scanstring (chunks @ [char]) s1 = Inr (key, rest)"
            by (auto simp: scanstring.simps split: option.splits)
          with "2.IH"(1) [OF c34 True Cons False] Cons show ?thesis by simp
        next
          case u: True
          with True Cons "2.prems" obtain uni where uni: "decode_uXXXX s1 = Some uni"
            by (auto simp: scanstring.simps split: option.splits)
          show ?thesis
          proof (cases "0xD800 \<le> uni \<and> uni \<le> 0xDBFF \<and> take 2 (drop 4 s1) = [92, 117]")
            case False
            with True Cons u uni "2.prems"
            have "scanstring (chunks @ [uni]) (drop 4 s1) = Inr (key, rest)"
              by (simp add: scanstring.simps)
            with "2.IH"(4) [OF c34 True Cons _ uni False] u Cons show ?thesis by simp
          next
            case pair: True
            with True Cons u uni "2.prems" obtain uni2 where
              uni2: "decode_uXXXX (drop 6 s1) = Some uni2"
              by (auto simp: scanstring.simps split: option.splits)
            show ?thesis
            proof (cases "0xDC00 \<le> uni2 \<and> uni2 \<le> 0xDFFF")
              case True
              with \<open>c = 92\<close> Cons u uni uni2 pair "2.prems"
              have "scanstring
                      (chunks @ [0x10000 + ((uni - 0xD800) * 1024 + (uni2 - 0xDC00))])
                      (drop 10 s1) = Inr (key, rest)"
                by (simp add: scanstring.simps)
              with "2.IH"(2) [OF c34 \<open>c = 92\<close> Cons _ uni pair uni2 True] u Cons
              show ?thesis by simp
            next
              case False
              with \<open>c = 92\<close> Cons u uni uni2 pair "2.prems"
              have "scanstring (chunks @ [uni]) (drop 4 s1) = Inr (key, rest)"
                by (simp add: scanstring.simps)
              with "2.IH"(3) [OF c34 \<open>c = 92\<close> Cons _ uni pair uni2 False] u Cons
              show ?thesis by simp
            qed
          qed
        qed
      qed
    qed
  qed
qed

lemma length_skip_ws: "length (skip_ws s) \<le> length s"
  by (simp add: skip_ws_def length_dropWhile_le)

lemma scan_digits_length:
  "scan_digits s = Some (ds, rest) \<Longrightarrow> length rest < length s"
  by (cases s)
     (auto simp: scan_digits_def less_Suc_eq_le length_dropWhile_le split: if_splits)

lemma scan_value_length:
  "scan_value s = Inr (v, rest) \<Longrightarrow> length rest < length s"
  by (cases s)
     (auto simp: scan_value_def less_Suc_eq dest!: scan_digits_length
           split: if_splits option.splits list.splits)

text \<open>
  The loop of \<open>JSONObject\<close>: the argument is the input after the opening quote of a key;
  the result is the list of pairs and the input after the closing brace.
\<close>

function json_pairs :: "(str \<times> int) list \<Rightarrow> str \<Rightarrow> error + ((str \<times> int) list \<times> str)" where
  "json_pairs pairs s =
     (case scanstring [] s of
        Inl e \<Rightarrow> Inl e
      | Inr (key, s1) \<Rightarrow>
          (case skip_ws s1 of
             [] \<Rightarrow> Inl JSONDecodeError
           | colon # s2 \<Rightarrow>
               if colon \<noteq> 58 then Inl JSONDecodeError
               else
                 (case scan_value (skip_ws s2) of
                    Inl e \<Rightarrow> Inl e
                  | Inr (v, s3) \<Rightarrow>
                      (case skip_ws s3 of
                         [] \<Rightarrow> Inl JSONDecodeError
                       | nextchar # s4 \<Rightarrow>
                           if nextchar = 125 then Inr (pairs @ [(key, v)], s4)
                           else if nextchar \<noteq> 44 then Inl JSONDecodeError
                           else
                             (case skip_ws s4 of
                                [] \<Rightarrow> Inl JSONDecodeError
                              | quote # s5 \<Rightarrow>
                                  if quote \<noteq> 34 then Inl JSONDecodeError
                                  else json_pairs (pairs @ [(key, v)]) s5)))))"
  by pat_completeness auto
termination
proof (relation "measure (\<lambda>(pairs, s). length s)", goal_cases)
  case 1
  show ?case by simp
next
  case (2 pairs s x2 key s1 colon s2 x2a v s3 nextchar s4 quote s5)
  from 2(1,2) have a: "length s1 < length s" by (auto dest: scanstring_length)
  from 2(3) length_skip_ws [of s1] have b: "length s2 < length s1" by simp
  from 2(5,6) have "length s3 < length (skip_ws s2)" by (auto dest: scan_value_length)
  with length_skip_ws [of s2] have c: "length s3 < length s2" by simp
  from 2(7) length_skip_ws [of s3] have d: "length s4 < length s3" by simp
  from 2(10) length_skip_ws [of s4] have e: "length s5 < length s4" by simp
  from a b c d e show ?case by simp
qed

declare json_pairs.simps [simp del]

text \<open>\<open>dict(pairs)\<close>: a repeated key keeps its first position and takes the last value.\<close>

fun dict_set :: "frequency \<Rightarrow> str \<Rightarrow> int \<Rightarrow> frequency" where
  "dict_set [] k v = [(k, v)]"
| "dict_set ((k', v') # d) k v = (if k' = k then (k', v) # d else (k', v') # dict_set d k v)"

fun dict_of_pairs :: "frequency \<Rightarrow> (str \<times> int) list \<Rightarrow> frequency" where
  "dict_of_pairs d [] = d"
| "dict_of_pairs d ((k, v) # pairs) = dict_of_pairs (dict_set d k v) pairs"

text \<open>\<open>json.loads(s)\<close>: one value between optional whitespace, and nothing after it.\<close>

definition json_end :: "frequency \<Rightarrow> str \<Rightarrow> error + frequency" where
  "json_end d rest = (if skip_ws rest = [] then Inr d else Inl JSONDecodeError)"

definition json_loads :: "str \<Rightarrow> error + frequency" where
  "json_loads s =
     (case skip_ws s of
        [] \<Rightarrow> Inl JSONDecodeError
      | c # s1 \<Rightarrow>
          if c = 123 then
            (case skip_ws s1 of
               [] \<Rightarrow> Inl JSONDecodeError
             | c2 # s2 \<Rightarrow>
                 if c2 = 125 then json_end [] s2
                 else if c2 \<noteq> 34 then Inl JSONDecodeError
                 else
                   (case json_pairs [] s2 of
                      Inl e \<Rightarrow> Inl e
                    | Inr (pairs, s3) \<Rightarrow> json_end (dict_of_pairs [] pairs) s3))
          else if c = 45 \<or> is_digit c \<or> c \<in> set [34, 91, 110, 116, 102, 78, 73]
          then Inl Unmodelled
          else Inl JSONDecodeError)"

section \<open>The two operations on files\<close>

text \<open>
  The file system is a map from file names to contents; every name can be opened for
  writing, and a file that does not exist cannot be opened for reading. Text written in
  text mode keeps its line ends (as on POSIX systems). What the program prints is not
  part of the model.
\<close>

type_synonym filename = string
type_synonym fs = "filename \<rightharpoonup> byte list"

text \<open>
  \<open>str.replace(old, new)\<close> for a non-empty \<open>old\<close>: the occurrences are replaced from
  left to right, without overlap.
\<close>

function str_replace :: "string \<Rightarrow> string \<Rightarrow> string \<Rightarrow> string" where
  "str_replace old new [] = []"
| "str_replace old new (c # s) =
     (if take (length old) (c # s) = old
      then new @ str_replace old new (drop (length old - 1) s)
      else c # str_replace old new s)"
  by pat_completeness auto
termination
  by (relation "measure (\<lambda>(old, new, s). length s)") auto

text \<open>The output paths: the given one, or the default derived from the input path.\<close>

definition compress_output_path :: "filename \<Rightarrow> filename option \<Rightarrow> filename" where
  "compress_output_path path output_path =
     (case output_path of None \<Rightarrow> path @ ''.huffman'' | Some p \<Rightarrow> p)"

definition decompress_output_path :: "filename \<Rightarrow> filename option \<Rightarrow> filename" where
  "decompress_output_path path output_path =
     (case output_path of
        None \<Rightarrow> str_replace ''.huffman'' ''.decompressed'' path
      | Some p \<Rightarrow> p)"

text \<open>
  The part of \<open>compress_file\<close> between reading the text and writing the container: the
  hash, the frequency table, the tree, the codes, the encoded and padded text, the bytes.
\<close>

definition encode_text :: "str \<Rightarrow> error + (str \<times> frequency \<times> byte list)" where
  "encode_text text =
     (case utf8_encode text of
        Inl e \<Rightarrow> Inl e
      | Inr raw \<Rightarrow>
          (let file_hash = sha256_hexdigest raw;
               frequency = make_frequency_dict text
           in case build_tree frequency of
                Inl e \<Rightarrow> Inl e
              | Inr root \<Rightarrow>
                  (let codes = make_codes root
                   in case get_encoded_text codes text of
                        Inl e \<Rightarrow> Inl e
                      | Inr encoded_text \<Rightarrow>
                          (let padded_encoded_text = pad_encoded_text encoded_text;
                               byte_array = get_byte_array padded_encoded_text
                           in Inr (file_hash, frequency, byte_array)))))"

text \<open>
  The three writes of \<open>compress_file\<close> to the output file: the hash and a newline, the
  JSON text of the frequency table and a newline, the bytes. The result is the outcome
  and the bytes written.
\<close>

definition write_container :: "str \<Rightarrow> frequency \<Rightarrow> byte list \<Rightarrow> (error + unit) \<times> byte list" where
  "write_container file_hash frequency byte_array =
     (case utf8_encode file_hash of
        Inl e \<Rightarrow> (Inl e, [])
      | Inr hash_line \<Rightarrow>
          (case utf8_encode (json_dumps frequency) of
             Inl e \<Rightarrow> (Inl e, hash_line @ [10])
           | Inr freq_json \<Rightarrow> (Inr (), hash_line @ [10] @ freq_json @ [10] @ byte_array)))"

text \<open>
  \<open>compress_file\<close>. The output file is opened before the three writes, and the
  compression ratio is computed after them: \<open>compressed_size / original_size\<close> raises
  \<open>ZeroDivisionError\<close> when the text has no bytes.
\<close>

definition compress_file :: "fs \<Rightarrow> filename \<Rightarrow> filename option \<Rightarrow> (error + filename) \<times> fs" where
  "compress_file fs path output_path =
     (case fs path of
        None \<Rightarrow> (Inl FileNotFoundError, fs)
      | Some data \<Rightarrow>
          (case utf8_decode data of
             Inl e \<Rightarrow> (Inl e, fs)
           | Inr decoded \<Rightarrow>
               (let text = translate_newlines decoded
                in case encode_text text of
                     Inl e \<Rightarrow> (Inl e, fs)
                   | Inr (file_hash, frequency, byte_array) \<Rightarrow>
                       (let out = compress_output_path path output_path
                        in case write_container file_hash frequency byte_array of
                             (Inl e, written) \<Rightarrow> (Inl e, fs(out \<mapsto> written))
                           | (Inr u, written) \<Rightarrow>
                               (let fs' = fs(out \<mapsto> written)
                                in case utf8_encode text of
                                     Inl e \<Rightarrow> (Inl e, fs')
                                   | Inr raw \<Rightarrow>
                                       if length raw = 0 then (Inl ZeroDivisionError, fs')
                                       else (Inr out, fs'))))))"

text \<open>The header of a container: two lines, decoded and stripped, and the bytes after them.\<close>

definition read_container :: "byte list \<Rightarrow> error + (str \<times> frequency \<times> byte list)" where
  "read_container data =
     (case readline data of
        (line1, rest1) \<Rightarrow>
          (case utf8_decode line1 of
             Inl e \<Rightarrow> Inl e
           | Inr l1 \<Rightarrow>
               (let file_hash = strip l1
                in case readline rest1 of
                     (line2, byte_array) \<Rightarrow>
                       (case utf8_decode line2 of
                          Inl e \<Rightarrow> Inl e
                        | Inr l2 \<Rightarrow>
                            (let freq_json = strip l2
                             in case json_loads freq_json of
                                  Inl e \<Rightarrow> Inl e
                                | Inr frequency \<Rightarrow> Inr (file_hash, frequency, byte_array))))))"

text \<open>
  The part of \<open>decompress_file\<close> from the rebuilt tree to the decoded text.
\<close>

definition decode_payload :: "frequency \<Rightarrow> byte list \<Rightarrow> error + str" where
  "decode_payload frequency byte_array =
     (case build_tree frequency of
        Inl e \<Rightarrow> Inl e
      | Inr root \<Rightarrow>
          (let codes = make_codes root;
               bit_string = bytes_to_bit_string byte_array
           in case remove_padding bit_string of
                Inl e \<Rightarrow> Inl e
              | Inr encoded_text \<Rightarrow> decode_text encoded_text root))"

text \<open>
  \<open>decompress_file\<close>. The bytes written to the output file are the UTF-8 encoding of the
  decoded text, the same bytes the hash was computed from.
\<close>

definition decompress_file :: "fs \<Rightarrow> filename \<Rightarrow> filename option \<Rightarrow> (error + filename) \<times> fs" where
  "decompress_file fs path output_path =
     (case fs path of
        None \<Rightarrow> (Inl FileNotFoundError, fs)
      | Some data \<Rightarrow>
          (case read_container data of
             Inl e \<Rightarrow> (Inl e, fs)
           | Inr (file_hash, frequency, byte_array) \<Rightarrow>
               (case decode_payload frequency byte_array of
                  Inl e \<Rightarrow> (Inl e, fs)
                | Inr decompressed_text \<Rightarrow>
                    (case utf8_encode decompressed_text of
                       Inl e \<Rightarrow> (Inl e, fs)
                     | Inr raw \<Rightarrow>
                         (let current_hash = sha256_hexdigest raw
                          in if current_hash \<noteq> file_hash
                             then (Inl (ValueError ''File integrity check failed''), fs)
                             else
                               (let out = decompress_output_path path output_path
                                in (Inr out, fs(out \<mapsto> raw))))))))"

section \<open>Notions used to state the properties\<close>

text \<open>The leaves of a tree from left to right, and their characters.\<close>

fun leaves :: "HuffmanNode \<Rightarrow> (str \<times> int) list" where
  "leaves (Leaf c f) = [(c, f)]"
| "leaves (Merged f l r) = leaves l @ leaves r"

definition symbols :: "HuffmanNode \<Rightarrow> str list" where
  "symbols t = map fst (leaves t)"

text \<open>
  The path from the root of a tree to the leaf of a character, \<open>False\<close> for a step to
  the left child and \<open>True\<close> for a step to the right child. Where a character labels
  several leaves, the rightmost one is taken: it is the one whose code
  \<open>_make_codes_helper\<close> stores last.
\<close>

fun code_path :: "HuffmanNode \<Rightarrow> str \<Rightarrow> bits" where
  "code_path (Leaf c f) s = []"
| "code_path (Merged f l r) s =
     (if s \<in> set (symbols r) then True # code_path r s else False # code_path l s)"

text \<open>All leaves of the trees of a heap.\<close>

definition heap_leaves :: "HuffmanNode list \<Rightarrow> (str \<times> int) multiset" where
  "heap_leaves heap = (\<Sum>n\<in>#mset heap. mset (leaves n))"

text \<open>
  The code table that both operations compute from a frequency table (\<open>_build_heap\<close>,
  \<open>_merge_nodes\<close>, \<open>self.heap[0]\<close>, \<open>_make_codes_helper\<close>).
\<close>

definition code_table :: "frequency \<Rightarrow> error + codes" where
  "code_table frequency =
     (case build_tree frequency of Inl e \<Rightarrow> Inl e | Inr root \<Rightarrow> Inr (make_codes root))"

text \<open>
  The characters a text read from a UTF-8 file can contain: the code points up to
  U+10FFFF without the surrogates.
\<close>

definition valid_char :: "nat \<Rightarrow> bool" where
  "valid_char c = (c < 0x110000 \<and> \<not> (0xD800 \<le> c \<and> c \<le> 0xDFFF))"

text \<open>The characters from space to \<open>~\<close>, and the bytes of a text of such characters.\<close>

definition printable :: "nat \<Rightarrow> bool" where
  "printable c = (32 \<le> c \<and> c \<le> 126)"

definition ascii_bytes :: "str \<Rightarrow> byte list" where
  "ascii_bytes s = map of_nat s"


text \<open>
  The weighted sum of the leaf depths of a tree, the weight of a leaf being its
  frequency: \<open>depth_sum d t\<close> is the sum for a tree \<open>t\<close> whose root is at depth \<open>d\<close>.
\<close>

fun depth_sum :: "nat \<Rightarrow> HuffmanNode \<Rightarrow> int" where
  "depth_sum d (Leaf c f) = f * int d"
| "depth_sum d (Merged f l r) = depth_sum (Suc d) l + depth_sum (Suc d) r"

definition cost :: "HuffmanNode \<Rightarrow> int" where
  "cost t = depth_sum 0 t"

text \<open>The sum of the leaf frequencies of a tree, and its height.\<close>

fun weight :: "HuffmanNode \<Rightarrow> int" where
  "weight (Leaf c f) = f"
| "weight (Merged f l r) = weight l + weight r"

fun height :: "HuffmanNode \<Rightarrow> nat" where
  "height (Leaf c f) = 0"
| "height (Merged f l r) = Suc (max (height l) (height r))"

text \<open>
  The heap order of \<open>heapq\<close> on a list: no element is smaller than its parent, the
  element at position \<open>(i - 1) div 2\<close>.
\<close>

definition is_heap :: "HuffmanNode list \<Rightarrow> bool" where
  "is_heap h = (\<forall>i. 0 < i \<and> i < length h \<longrightarrow> freq (h ! ((i - 1) div 2)) \<le> freq (h ! i))"

text \<open>
  The leaves of a tree as a multiset of pairs of a frequency and a depth; the weighted
  sum of depths of such a multiset; and the multisets of this kind whose depths are at
  most \<open>M\<close> and fill the binary tree completely (the sum of \<open>2 ^ (M - depth)\<close> is
  \<open>2 ^ M\<close>), as the leaves of every tree do.
\<close>

fun profile :: "nat \<Rightarrow> HuffmanNode \<Rightarrow> (int \<times> nat) multiset" where
  "profile d (Leaf c f) = {#(f, d)#}"
| "profile d (Merged f l r) = profile (Suc d) l + profile (Suc d) r"

definition pcost :: "(int \<times> nat) multiset \<Rightarrow> int" where
  "pcost P = (\<Sum>p\<in>#P. fst p * int (snd p))"

definition kraft :: "nat \<Rightarrow> (int \<times> nat) multiset \<Rightarrow> nat" where
  "kraft M P = (\<Sum>p\<in>#P. 2 ^ (M - snd p))"

definition complete :: "nat \<Rightarrow> (int \<times> nat) multiset \<Rightarrow> bool" where
  "complete M P = ((\<forall>p\<in>#P. snd p \<le> M) \<and> kraft M P = 2 ^ M)"

section \<open>Binary digits, padding and bytes\<close>

lemma int2_snoc: "int2 (xs @ [b]) = 2 * int2 xs + (if b then 1 else 0)"
  by (simp add: int2_def)

lemma int2_Nil [simp]: "int2 [] = 0"
  by (simp add: int2_def)

lemma int2_bound: "int2 xs < 2 ^ length xs"
proof (induction xs rule: rev_induct)
  case Nil
  then show ?case by simp
next
  case (snoc b xs)
  then show ?case by (auto simp: int2_snoc)
qed

lemma int2_replicate_False: "int2 (replicate k False @ xs) = int2 xs"
proof (induction xs rule: rev_induct)
  case Nil
  show ?case by (induction k) (simp_all add: int2_def)
next
  case (snoc b xs)
  have "int2 (replicate k False @ xs @ [b]) = int2 ((replicate k False @ xs) @ [b])" by simp
  also have "\<dots> = 2 * int2 (replicate k False @ xs) + (if b then 1 else 0)"
    by (rule int2_snoc)
  finally show ?case using snoc by (simp add: int2_snoc)
qed

lemma int2_bin_digits: "int2 (bin_digits n) = n"
proof (induction n rule: bin_digits.induct)
  case (1 n)
  show ?case
  proof (cases "n < 2")
    case True
    then show ?thesis by (subst bin_digits.simps) (auto simp: int2_def)
  next
    case False
    with 1 have "int2 (bin_digits (n div 2)) = n div 2" by simp
    with False show ?thesis
      by (subst bin_digits.simps) (simp add: int2_snoc, presburger)
  qed
qed

lemma int2_format_08b: "int2 (format_08b n) = n"
  by (simp add: format_08b_def int2_replicate_False int2_bin_digits)

lemma int2_zero_replicate: "int2 xs = 0 \<Longrightarrow> xs = replicate (length xs) False"
proof (induction xs rule: rev_induct)
  case Nil
  then show ?case by simp
next
  case (snoc b xs)
  from snoc.prems have b: "\<not> b" and z: "int2 xs = 0"
    by (auto simp: int2_snoc split: if_splits)
  from snoc.IH [OF z] have "xs @ [b] = replicate (length xs) False @ [False]"
    using b by simp
  also have "\<dots> = replicate (length (xs @ [b])) False"
    by (simp add: replicate_append_same)
  finally show ?case .
qed

lemma bin_digits_double:
  "0 < m \<Longrightarrow> bin_digits (2 * m + (if b then 1 else 0)) = bin_digits m @ [b]"
  by (subst bin_digits.simps) auto

lemma bin_digits_int2:
  "int2 xs \<noteq> 0 \<Longrightarrow> replicate (length xs - length (bin_digits (int2 xs))) False @ bin_digits (int2 xs) = xs"
proof (induction xs rule: rev_induct)
  case Nil
  then show ?case by simp
next
  case (snoc b xs)
  show ?case
  proof (cases "int2 xs = 0")
    case True
    with snoc.prems have b: "b" by (auto simp: int2_snoc split: if_splits)
    have "xs = replicate (length xs) False" using True by (rule int2_zero_replicate)
    moreover have "bin_digits (int2 (xs @ [b])) = [True]"
      using True b by (subst bin_digits.simps) (simp add: int2_snoc)
    ultimately show ?thesis using b by simp
  next
    case False
    then have "bin_digits (int2 (xs @ [b])) = bin_digits (int2 xs) @ [b]"
      by (simp add: int2_snoc bin_digits_double)
    with snoc.IH [OF False] show ?thesis by simp
  qed
qed

lemma bin_digits_0: "bin_digits 0 = [False]"
  by (subst bin_digits.simps) simp

lemma format_08b_int2: "length xs = 8 \<Longrightarrow> format_08b (int2 xs) = xs"
proof (cases "int2 xs = 0")
  case True
  assume "length xs = 8"
  with int2_zero_replicate [OF True] have "xs = replicate 8 False" by simp
  then show ?thesis using True by (simp add: format_08b_def bin_digits_0 numeral_eq_Suc)
next
  case False
  assume "length xs = 8"
  with bin_digits_int2 [OF False] show ?thesis by (simp add: format_08b_def)
qed

lemma length_bin_digits_le: "n < 2 ^ k \<Longrightarrow> 0 < k \<Longrightarrow> length (bin_digits n) \<le> k"
proof (induction n arbitrary: k rule: bin_digits.induct)
  case (1 n)
  show ?case
  proof (cases "n < 2")
    case True
    then show ?thesis using "1.prems" by (subst bin_digits.simps) simp
  next
    case False
    obtain k' where k: "k = Suc k'" using "1.prems" by (cases k) auto
    with False "1.prems" have k': "0 < k'" by (cases k') auto
    have "n div 2 < 2 ^ k'" using "1.prems" k by auto
    from "1.IH" [OF False this k'] show ?thesis using False k
      by (subst bin_digits.simps) simp
  qed
qed

lemma length_format_08b: "n < 256 \<Longrightarrow> length (format_08b n) = 8"
  using length_bin_digits_le [of n 8] by (simp add: format_08b_def)

lemma drop8_mod: "8 \<le> (n::nat) \<Longrightarrow> n mod 8 = 0 \<Longrightarrow> (n - 8) mod 8 = 0"
  by (simp add: le_mod_geq)

lemma drop8_div: "8 \<le> (n::nat) \<Longrightarrow> Suc ((n - 8) div 8) = n div 8"
  by (simp add: le_div_geq)

lemma pad_total: "(n::nat) + (8 - n mod 8) = 8 * (n div 8) + 8"
proof -
  have "n mod 8 < 8" by simp
  moreover have "8 * (n div 8) + n mod 8 = n" by simp
  ultimately show ?thesis by linarith
qed


lemma unat_byte_int2: "length xs \<le> 8 \<Longrightarrow> unat (of_nat (int2 xs) :: byte) = int2 xs"
proof -
  assume len: "length xs \<le> 8"
  have "int2 xs < 2 ^ length xs" by (rule int2_bound)
  also have "\<dots> \<le> (2::nat) ^ 8" using len by (intro power_increasing) simp_all
  finally have "int2 xs < 256" by simp
  then show ?thesis by (simp add: unat_of_nat)
qed

lemma bytes_to_bit_string_Cons:
  "bytes_to_bit_string (b # bs) = format_08b (unat b) @ bytes_to_bit_string bs"
  by (simp add: bytes_to_bit_string_def)

lemma bytes_to_bit_string_Nil [simp]: "bytes_to_bit_string [] = []"
  by (simp add: bytes_to_bit_string_def)

lemma bit_string_of_byte_array:
  "length s mod 8 = 0 \<Longrightarrow> bytes_to_bit_string (get_byte_array s) = s"
proof (induction s rule: get_byte_array.induct)
  case (1 s)
  show ?case
  proof (cases "s = []")
    case True
    then show ?thesis by (subst get_byte_array.simps) simp
  next
    case False
    with "1.prems" have len: "8 \<le> length s" by (cases "length s < 8") auto
    then have l8: "length (take 8 s) = 8" by simp
    have "length (drop 8 s) mod 8 = 0"
      using "1.prems" len by (simp add: drop8_mod)
    with "1.IH" False have IH: "bytes_to_bit_string (get_byte_array (drop 8 s)) = drop 8 s"
      by simp
    have "format_08b (unat (of_nat (int2 (take 8 s)) :: byte)) = take 8 s"
      using l8 by (simp add: unat_byte_int2 format_08b_int2)
    with IH False show ?thesis
      by (subst get_byte_array.simps) (simp add: bytes_to_bit_string_Cons)
  qed
qed

lemma length_get_byte_array:
  "length s mod 8 = 0 \<Longrightarrow> length (get_byte_array s) = length s div 8"
proof (induction s rule: get_byte_array.induct)
  case (1 s)
  show ?case
  proof (cases "s = []")
    case True
    then show ?thesis by (subst get_byte_array.simps) simp
  next
    case False
    with "1.prems" have len: "8 \<le> length s" by (cases "length s < 8") auto
    have "length (drop 8 s) mod 8 = 0"
      using "1.prems" len by (simp add: drop8_mod)
    with "1.IH" False have "length (get_byte_array (drop 8 s)) = (length s - 8) div 8"
      by simp
    with False len show ?thesis
      by (subst get_byte_array.simps) (simp add: drop8_div)
  qed
qed

lemma extra_padding_range:
  "1 \<le> 8 - (L::nat) mod 8 \<and> 8 - L mod 8 \<le> 8"
proof -
  have "L mod 8 < 8" by simp
  then show ?thesis by linarith
qed

lemma length_pad_encoded_text:
  "length (pad_encoded_text e) = 8 + length e + (8 - length e mod 8)"
proof -
  have "8 - length e mod 8 < 256" using extra_padding_range [of "length e"] by linarith
  then show ?thesis by (simp add: pad_encoded_text_def Let_def length_format_08b)
qed

lemma length_pad_encoded_text_mod8: "length (pad_encoded_text e) mod 8 = 0"
proof -
  have "length (pad_encoded_text e) = 8 + (length e + (8 - length e mod 8))"
    by (simp add: length_pad_encoded_text)
  also have "\<dots> = 8 * (length e div 8 + 2)"
    by (simp only: pad_total) simp
  finally show ?thesis by simp
qed

lemma remove_padding_pad: "remove_padding (pad_encoded_text e) = Inr e"
proof -
  let ?x = "8 - length e mod 8"
  have x: "1 \<le> ?x" "?x \<le> 8" using extra_padding_range [of "length e"] by simp_all
  then have l8: "length (format_08b ?x) = 8" by (simp add: length_format_08b)
  have ne: "format_08b ?x \<noteq> []" using l8 by auto
  have x0: "?x \<noteq> 0" using x by simp
  have "remove_padding (format_08b ?x @ e @ replicate ?x False) = Inr e"
    using ne l8 x0
    by (simp add: remove_padding_def Let_def py_int2_def int2_format_08b slice_to_minus_def)
  then show ?thesis by (simp add: pad_encoded_text_def Let_def)
qed

text \<open>
  C4. For an encoded bit stream of any length \<open>L\<close>, \<open>_pad_encoded_text\<close> appends
  \<open>8 - L mod 8\<close> zero bits, a count between 1 and 8 (8, never 0, when \<open>L\<close> is a multiple
  of 8), and puts the count in front as 8 binary digits, most significant first; the
  padded length is a multiple of 8; and the unpadding of \<open>decompress_file\<close>, applied to
  the bytes that \<open>_get_byte_array\<close> makes of the padded stream, gives back the stream.
\<close>

theorem padding_roundtrip:
  "pad_encoded_text e =
     format_08b (8 - length e mod 8) @ e @ replicate (8 - length e mod 8) False
   \<and> 1 \<le> 8 - length e mod 8 \<and> 8 - length e mod 8 \<le> 8
   \<and> length (format_08b (8 - length e mod 8)) = 8
   \<and> int2 (format_08b (8 - length e mod 8)) = 8 - length e mod 8
   \<and> length (pad_encoded_text e) mod 8 = 0
   \<and> remove_padding (bytes_to_bit_string (get_byte_array (pad_encoded_text e))) = Inr e"
proof -
  let ?x = "8 - length e mod 8"
  have x: "1 \<le> ?x \<and> ?x \<le> 8" by (rule extra_padding_range)
  then have "?x < 256" by linarith
  then have l8: "length (format_08b ?x) = 8" by (rule length_format_08b)
  have shape: "pad_encoded_text e = format_08b ?x @ e @ replicate ?x False"
    by (simp add: pad_encoded_text_def Let_def)
  have m8: "length (pad_encoded_text e) mod 8 = 0" by (rule length_pad_encoded_text_mod8)
  have "bytes_to_bit_string (get_byte_array (pad_encoded_text e)) = pad_encoded_text e"
    using m8 by (rule bit_string_of_byte_array)
  then have rt: "remove_padding (bytes_to_bit_string (get_byte_array (pad_encoded_text e))) = Inr e"
    by (simp add: remove_padding_pad)
  show ?thesis using shape x l8 m8 rt int2_format_08b [of ?x] by blast
qed

section \<open>Heap operations keep the nodes\<close>

lemma mset_update_move:
  assumes "i < length xs" "j < length xs" "i \<noteq> j"
  shows "mset (xs[i := xs ! j, j := v]) = mset (xs[i := v])"
proof -
  have "mset (xs[i := xs ! j, j := v])
          = add_mset v (mset (xs[i := xs ! j]) - {#xs[i := xs ! j] ! j#})"
    using assms by (simp add: mset_update)
  also have "xs[i := xs ! j] ! j = xs ! j" using assms by simp
  also have "mset (xs[i := xs ! j]) = add_mset (xs ! j) (mset xs - {#xs ! i#})"
    using assms by (simp add: mset_update)
  finally show ?thesis using assms by (simp add: mset_update)
qed

lemma mset_siftdown_loop:
  "pos < length heap \<Longrightarrow>
   mset (siftdown_loop heap startpos newitem pos) = mset (heap[pos := newitem])"
proof (induction heap startpos newitem pos rule: siftdown_loop.induct)
  case (1 heap startpos newitem pos)
  show ?case
  proof (cases "pos > startpos \<and> node_lt newitem (heap ! ((pos - 1) div 2))")
    case True
    let ?pp = "(pos - 1) div 2"
    from True have pp: "?pp < pos" by auto
    with "1.prems" have ppl: "?pp < length heap" by simp
    have "mset (siftdown_loop (heap[pos := heap ! ?pp]) startpos newitem ?pp)
            = mset (heap[pos := heap ! ?pp, ?pp := newitem])"
      using True ppl by (intro "1.IH") simp_all
    also have "\<dots> = mset (heap[pos := newitem])"
      using "1.prems" ppl pp by (intro mset_update_move) simp_all
    finally show ?thesis using True
      by (subst siftdown_loop.simps) (simp add: Let_def)
  next
    case False
    then show ?thesis by (subst siftdown_loop.simps) (auto simp: Let_def)
  qed
qed

lemma mset_siftdown: "pos < length heap \<Longrightarrow> mset (siftdown heap startpos pos) = mset heap"
  by (simp add: siftdown_def mset_siftdown_loop)

lemma siftup_loop_stop:
  "\<not> 2 * pos + 1 < endpos \<Longrightarrow> siftup_loop heap endpos pos = (heap, pos)"
  by (subst siftup_loop.simps) (simp add: Let_def)

lemma siftup_loop_step:
  "2 * pos + 1 < endpos \<Longrightarrow>
   c' = (if 2 * pos + 1 + 1 < endpos \<and> \<not> node_lt (heap ! (2 * pos + 1)) (heap ! (2 * pos + 1 + 1))
         then 2 * pos + 1 + 1 else 2 * pos + 1) \<Longrightarrow>
   siftup_loop heap endpos pos = siftup_loop (heap[pos := heap ! c']) endpos c'"
  by (subst siftup_loop.simps) (auto simp: Let_def)

lemma siftup_loop_props_aux:
  "endpos = length heap \<Longrightarrow> pos < length heap \<Longrightarrow>
   siftup_loop heap endpos pos = (heap', pos') \<Longrightarrow>
   pos' < length heap \<and> length heap' = length heap \<and>
   mset (heap'[pos' := x]) = mset (heap[pos := x])"
proof (induction heap endpos pos arbitrary: heap' pos' rule: siftup_loop.induct)
  case (1 heap endpos pos)
  define c where "c = 2 * pos + 1"
  show ?case
  proof (cases "c < endpos")
    case False
    with "1.prems" show ?thesis
      by (simp add: siftup_loop_stop c_def)
  next
    case True
    define c' where "c' = (if c + 1 < endpos \<and> \<not> node_lt (heap ! c) (heap ! (c + 1))
                           then c + 1 else c)"
    have c': "c' < length heap" "pos < c'" "pos \<noteq> c'"
      using True "1.prems"(1) by (auto simp: c'_def c_def)
    define h where "h = heap[pos := heap ! c']"
    have rec: "siftup_loop h endpos c' = (heap', pos')"
      using "1.prems"(3) siftup_loop_step [OF True [unfolded c_def] c'_def [unfolded c_def]]
      by (simp add: h_def)
    have c'2: "c' = (if c + 1 < endpos \<and> \<not> node_lt (heap ! c) (heap ! (c + 1))
                     then c + 1 else c)"
      by (rule c'_def)
    have "pos' < length h \<and> length heap' = length h \<and>
          mset (heap'[pos' := x]) = mset (h[c' := x])"
      unfolding h_def
    proof (rule "1.IH" [OF c_def True refl c'2])
      show "endpos = length (heap[pos := heap ! c'])" using "1.prems"(1) by simp
      show "c' < length (heap[pos := heap ! c'])" using c' by simp
      show "siftup_loop (heap[pos := heap ! c']) endpos c' = (heap', pos')"
        using rec by (simp add: h_def)
    qed
    moreover have "mset (h[c' := x]) = mset (heap[pos := x])"
      unfolding h_def using "1.prems"(2) c' by (intro mset_update_move) simp_all
    ultimately show ?thesis by (simp add: h_def)
  qed
qed

lemma siftup_loop_props:
  "pos < length heap \<Longrightarrow> siftup_loop heap (length heap) pos = (heap', pos') \<Longrightarrow>
   pos' < length heap \<and> length heap' = length heap \<and>
   mset (heap'[pos' := x]) = mset (heap[pos := x])"
  by (rule siftup_loop_props_aux [OF refl])

lemma mset_siftup: "pos < length heap \<Longrightarrow> mset (siftup heap pos) = mset heap"
proof -
  assume pos: "pos < length heap"
  obtain h p where hp: "siftup_loop heap (length heap) pos = (h, p)"
    by (cases "siftup_loop heap (length heap) pos")
  from siftup_loop_props [OF pos hp, of "heap ! pos"]
  have p: "p < length heap" "length h = length heap"
    and m: "mset (h[p := heap ! pos]) = mset heap"
    using pos by simp_all
  have "mset (siftup heap pos) = mset (siftdown (h[p := heap ! pos]) pos p)"
    by (simp add: siftup_def hp)
  also have "\<dots> = mset (h[p := heap ! pos])" using p by (simp add: mset_siftdown)
  finally show ?thesis using m by simp
qed

lemma mset_heappush: "mset (heappush heap item) = add_mset item (mset heap)"
  by (simp add: heappush_def mset_siftdown)

lemma mset_heappop:
  "heappop heap = Inr (item, heap') \<Longrightarrow> mset heap = add_mset item (mset heap')"
proof (cases heap rule: rev_cases)
  case Nil
  assume "heappop heap = Inr (item, heap')"
  with Nil show ?thesis by (simp add: heappop_def)
next
  case (snoc heap1 lastelt)
  assume pop: "heappop heap = Inr (item, heap')"
  show ?thesis
  proof (cases "heap1 = []")
    case True
    with pop snoc show ?thesis by (simp add: heappop_def)
  next
    case False
    with pop snoc have item: "item = heap1 ! 0"
      and h': "heap' = siftup (heap1[0 := lastelt]) 0"
      by (simp_all add: heappop_def Let_def)
    have "mset heap' = mset (heap1[0 := lastelt])"
      using False h' by (simp add: mset_siftup)
    also have "\<dots> = add_mset lastelt (mset heap1 - {#heap1 ! 0#})"
      using False by (simp add: mset_update)
    finally show ?thesis using False snoc item by simp
  qed
qed

section \<open>Tree construction\<close>

lemma symbols_simps [simp]:
  "symbols (Leaf c f) = [c]"
  "symbols (Merged f l r) = symbols l @ symbols r"
  by (simp_all add: symbols_def)


lemma heap_leaves_Nil [simp]: "heap_leaves [] = {#}"
  by (simp add: heap_leaves_def)

lemma heap_leaves_heappush:
  "heap_leaves (heappush heap item) = mset (leaves item) + heap_leaves heap"
  by (simp add: heap_leaves_def mset_heappush)

lemma heap_leaves_heappop:
  "heappop heap = Inr (item, heap') \<Longrightarrow> heap_leaves heap = mset (leaves item) + heap_leaves heap'"
  by (simp add: heap_leaves_def mset_heappop)

lemma merge_nodes_small: "length heap \<le> 1 \<Longrightarrow> merge_nodes heap = Inr heap"
  by (subst merge_nodes.simps) simp

lemma merge_nodes_step:
  assumes "1 < length heap"
  obtains node1 heap1 node2 heap2 where
    "heappop heap = Inr (node1, heap1)" "heappop heap1 = Inr (node2, heap2)"
    "merge_nodes heap =
       merge_nodes (heappush heap2 (Merged (freq node1 + freq node2) node1 node2))"
proof -
  from assms have "heap \<noteq> []" by auto
  then obtain node1 heap1 where p1: "heappop heap = Inr (node1, heap1)"
    using heappop_nonempty by blast
  with assms have "heap1 \<noteq> []" by (auto dest: length_heappop)
  then obtain node2 heap2 where p2: "heappop heap1 = Inr (node2, heap2)"
    using heappop_nonempty by blast
  have "merge_nodes heap =
       merge_nodes (heappush heap2 (Merged (freq node1 + freq node2) node1 node2))"
    using assms p1 p2 by (subst merge_nodes.simps) simp
  with p1 p2 show ?thesis using that by blast
qed

lemma merge_nodes_result:
  "heap \<noteq> [] \<Longrightarrow>
   \<exists>root. merge_nodes heap = Inr [root] \<and> mset (leaves root) = heap_leaves heap"
proof (induction heap rule: merge_nodes.induct)
  case (1 heap)
  show ?case
  proof (cases "1 < length heap")
    case False
    with "1.prems" obtain root where "heap = [root]"
      by (cases heap) auto
    then show ?thesis by (simp add: merge_nodes_small heap_leaves_def)
  next
    case True
    then obtain node1 heap1 node2 heap2 where
      p1: "heappop heap = Inr (node1, heap1)" and p2: "heappop heap1 = Inr (node2, heap2)"
      and step: "merge_nodes heap =
        merge_nodes (heappush heap2 (Merged (freq node1 + freq node2) node1 node2))"
      by (rule merge_nodes_step)
    let ?h = "heappush heap2 (Merged (freq node1 + freq node2) node1 node2)"
    have "?h \<noteq> []" using length_heappush [of heap2] by (metis length_0_conv nat.simps(3))
    with "1.IH" [OF True p1 refl p2 refl] obtain root where
      r: "merge_nodes ?h = Inr [root]" "mset (leaves root) = heap_leaves ?h"
      by blast
    have "heap_leaves ?h = heap_leaves heap"
      by (simp add: heap_leaves_heappush heap_leaves_heappop [OF p1] heap_leaves_heappop [OF p2])
    with r step show ?thesis by simp
  qed
qed

lemma heap_leaves_build_heap:
  "heap_leaves (build_heap heap frequency) = heap_leaves heap + mset frequency"
  by (induction heap frequency rule: build_heap.induct) (simp_all add: heap_leaves_heappush)

lemma length_build_heap: "length (build_heap heap frequency) = length heap + length frequency"
  by (induction heap frequency rule: build_heap.induct) simp_all

lemma build_tree_empty: "build_tree [] = Inl (IndexError ''list index out of range'')"
  by (simp add: build_tree_def merge_nodes_small heap_root_def)

lemma build_tree_nonempty:
  assumes "frequency \<noteq> []"
  shows "\<exists>root. build_tree frequency = Inr root \<and> mset (leaves root) = mset frequency"
proof -
  have "build_heap [] frequency \<noteq> []"
    using assms length_build_heap [of "[]" frequency] by auto
  then obtain root where r: "merge_nodes (build_heap [] frequency) = Inr [root]"
    "mset (leaves root) = heap_leaves (build_heap [] frequency)"
    using merge_nodes_result by blast
  then show ?thesis
    by (simp add: build_tree_def heap_root_def heap_leaves_build_heap)
qed

lemma build_tree_Inr:
  "build_tree frequency = Inr root \<Longrightarrow> frequency \<noteq> [] \<and> mset (leaves root) = mset frequency"
  using build_tree_nonempty [of frequency] build_tree_empty by (cases "frequency = []") auto

lemma mset_symbols_build_tree:
  "build_tree frequency = Inr root \<Longrightarrow> mset (symbols root) = mset (map fst frequency)"
  by (drule build_tree_Inr) (metis mset_map symbols_def)

lemma leaves_nonempty: "leaves t \<noteq> []"
  by (induction t) auto

lemma build_tree_Merged:
  assumes "build_tree frequency = Inr root" "2 \<le> length frequency"
  shows "\<exists>f l r. root = Merged f l r"
proof (cases root)
  case (Leaf c f)
  from assms(1) have "mset (leaves root) = mset frequency" by (simp add: build_tree_Inr)
  then have "length (leaves root) = length frequency" by (rule mset_eq_length)
  with Leaf assms(2) show ?thesis by simp
next
  case (Merged f l r)
  then show ?thesis by blast
qed

lemma build_tree_Leaf:
  assumes "build_tree [(k, v)] = Inr root"
  shows "root = Leaf k v"
  using assms
  by (simp add: build_tree_def heappush_def siftdown_def siftdown_loop.simps
      merge_nodes_small heap_root_def)

section \<open>Codes and decoding\<close>

lemma fst_make_codes_helper:
  "fst (make_codes_helper t p st) =
     (\<lambda>s. if s \<in> set (symbols t) then Some (p @ code_path t s) else fst st s)"
proof (induction t arbitrary: p st)
  case (Leaf c f)
  show ?case by (cases st) (auto simp: fun_eq_iff)
next
  case (Merged f l r)
  show ?case by (auto simp: Merged fun_eq_iff)
qed

lemma make_codes_eq:
  "make_codes root = (\<lambda>s. if s \<in> set (symbols root) then Some (code_path root s) else None)"
  by (simp add: make_codes_def fst_make_codes_helper fun_eq_iff)

lemma dom_make_codes: "dom (make_codes root) = set (symbols root)"
  by (auto simp: make_codes_eq split: if_splits)

lemma path_prefix_free:
  "distinct (symbols t) \<Longrightarrow> a \<in> set (symbols t) \<Longrightarrow> b \<in> set (symbols t) \<Longrightarrow>
   a \<noteq> b \<Longrightarrow> \<not> prefix (code_path t a) (code_path t b)"
proof (induction t)
  case (Leaf c f)
  then show ?case by simp
next
  case (Merged f l r)
  from Merged.prems(1) have d: "distinct (symbols l)" "distinct (symbols r)"
    "set (symbols l) \<inter> set (symbols r) = {}" by simp_all
  show ?case
  proof (cases "a \<in> set (symbols r)")
    case ar: True
    show ?thesis
    proof (cases "b \<in> set (symbols r)")
      case True
      with ar Merged.IH(2) [OF d(2)] Merged.prems(4) show ?thesis by simp
    next
      case False
      with ar show ?thesis by simp
    qed
  next
    case al: False
    with Merged.prems(2) have al': "a \<in> set (symbols l)" by simp
    show ?thesis
    proof (cases "b \<in> set (symbols r)")
      case True
      with al show ?thesis by simp
    next
      case False
      with Merged.prems(3) have "b \<in> set (symbols l)" by simp
      with al al' False Merged.IH(1) [OF d(1)] Merged.prems(4) show ?thesis by simp
    qed
  qed
qed

lemma get_encoded_loop_path:
  "\<forall>c\<in>set text. [c] \<in> set (symbols root) \<Longrightarrow>
   get_encoded_loop (make_codes root) acc0 text
     = Inr (acc0 @ concat (map (\<lambda>c. code_path root [c]) text))"
  by (induction "text" arbitrary: acc0) (simp_all add: make_codes_eq)

lemma get_encoded_text_path:
  "\<forall>c\<in>set text. [c] \<in> set (symbols root) \<Longrightarrow>
   get_encoded_text (make_codes root) text = Inr (concat (map (\<lambda>c. code_path root [c]) text))"
  by (simp add: get_encoded_text_def get_encoded_loop_path)

lemma decode_loop_path_aux:
  "s \<in> set (symbols t) \<Longrightarrow> t = Merged f l r \<Longrightarrow>
   decode_loop root t acc0 (code_path t s @ rest) = decode_loop root root (acc0 @ s) rest"
proof (induction t arbitrary: f l r)
  case (Leaf c f')
  then show ?case by simp
next
  case (Merged f' l' r')
  show ?case
  proof (cases "s \<in> set (symbols r')")
    case True
    show ?thesis
    proof (cases r')
      case (Leaf c g)
      with True show ?thesis by simp
    next
      case (Merged g l2 r2)
      with True Merged.IH(2) [OF True Merged] show ?thesis by simp
    qed
  next
    case False
    with Merged.prems have sl: "s \<in> set (symbols l')" by simp
    show ?thesis
    proof (cases l')
      case (Leaf c g)
      with False sl show ?thesis by simp
    next
      case (Merged g l2 r2)
      with False Merged.IH(1) [OF sl Merged] show ?thesis by simp
    qed
  qed
qed

lemma decode_loop_path:
  "s \<in> set (symbols (Merged f l r)) \<Longrightarrow>
   decode_loop root (Merged f l r) acc0 (code_path (Merged f l r) s @ rest)
     = decode_loop root root (acc0 @ s) rest"
  by (rule decode_loop_path_aux [OF _ refl])

lemma decode_loop_text:
  "\<forall>c\<in>set cs. [c] \<in> set (symbols (Merged f l r)) \<Longrightarrow>
   decode_loop (Merged f l r) (Merged f l r) acc0
       (concat (map (\<lambda>c. code_path (Merged f l r) [c]) cs))
     = Inr (acc0 @ cs)"
proof (induction cs arbitrary: acc0)
  case Nil
  then show ?case by simp
next
  case (Cons c cs)
  have "decode_loop (Merged f l r) (Merged f l r) acc0
          (code_path (Merged f l r) [c] @ concat (map (\<lambda>c. code_path (Merged f l r) [c]) cs))
        = decode_loop (Merged f l r) (Merged f l r) (acc0 @ [c])
            (concat (map (\<lambda>c. code_path (Merged f l r) [c]) cs))"
    using Cons.prems by (intro decode_loop_path) simp
  also have "\<dots> = Inr ((acc0 @ [c]) @ cs)"
    using Cons.prems by (intro Cons.IH) simp
  finally show ?case by simp
qed

lemma decode_encode:
  assumes "\<forall>c\<in>set text. [c] \<in> set (symbols (Merged f l r))"
  shows "\<exists>encoded. get_encoded_text (make_codes (Merged f l r)) text = Inr encoded
           \<and> decode_text encoded (Merged f l r) = Inr text"
  using assms decode_loop_text [OF assms, of "[]"]
  by (simp add: get_encoded_text_path decode_text_def)

subsection \<open>The frequency dictionary\<close>

lemma set_fst_dict_incr: "fst ` set (dict_incr d k) = insert k (fst ` set d)"
  by (induction d k rule: dict_incr.induct) auto

lemma distinct_dict_incr:
  "distinct (map fst d) \<Longrightarrow> distinct (map fst (dict_incr d k))"
proof (induction d k rule: dict_incr.induct)
  case (1 k)
  then show ?case by simp
next
  case (2 k' v d k)
  then show ?case using set_fst_dict_incr [of d k] by (auto simp: image_iff)
qed

lemma make_frequency_loop_keys:
  "fst ` set (make_frequency_loop d text) = fst ` set d \<union> (\<lambda>c. [c]) ` set text"
  by (induction d "text" rule: make_frequency_loop.induct) (auto simp: set_fst_dict_incr)

lemma make_frequency_loop_distinct:
  "distinct (map fst d) \<Longrightarrow> distinct (map fst (make_frequency_loop d text))"
  by (induction d "text" rule: make_frequency_loop.induct) (auto simp: distinct_dict_incr)

lemma make_frequency_dict_keys:
  "set (map fst (make_frequency_dict text)) = (\<lambda>c. [c]) ` set text"
  by (simp add: make_frequency_dict_def make_frequency_loop_keys)

lemma make_frequency_dict_distinct: "distinct (map fst (make_frequency_dict text))"
  by (simp add: make_frequency_dict_def make_frequency_loop_distinct)

lemma length_make_frequency_dict:
  "length (make_frequency_dict text) = card (set text)"
proof -
  have "length (make_frequency_dict text) = length (map fst (make_frequency_dict text))"
    by simp
  also have "\<dots> = card (set (map fst (make_frequency_dict text)))"
    using make_frequency_dict_distinct by (simp only: distinct_card)
  also have "\<dots> = card ((\<lambda>c. [c]) ` set text)"
    by (simp only: make_frequency_dict_keys)
  also have "\<dots> = card (set text)"
    by (rule card_image) (simp add: inj_on_def)
  finally show ?thesis .
qed

section \<open>Text encoding\<close>

subsection \<open>ASCII text and bytes\<close>

lemma utf8_encode_ascii:
  "\<forall>c\<in>set s. c < 128 \<Longrightarrow> utf8_encode s = Inr (ascii_bytes s)"
  by (induction s) (simp_all add: utf8_char_def ascii_bytes_def)

lemma unat_ascii: "c < 128 \<Longrightarrow> unat (of_nat c :: byte) = c"
  by (simp add: unat_of_nat)

lemma utf8_decode_ascii:
  "\<forall>c\<in>set s. c < 128 \<Longrightarrow> utf8_decode (ascii_bytes s) = Inr s"
  by (induction s) (simp_all add: ascii_bytes_def unat_ascii Let_def)

lemma ascii_bytes_no_newline:
  "\<forall>c\<in>set s. c < 128 \<and> c \<noteq> 10 \<Longrightarrow> 10 \<notin> set (ascii_bytes s)"
proof (induction s)
  case Nil
  then show ?case by (simp add: ascii_bytes_def)
next
  case (Cons c s)
  then have "c < 128" "c \<noteq> 10" by simp_all
  then have "unat (of_nat c :: byte) \<noteq> unat (10 :: byte)" by (simp add: unat_ascii)
  then have "(of_nat c :: byte) \<noteq> 10" by metis
  with Cons show ?case by (simp add: ascii_bytes_def)
qed

lemma readline_line:
  "10 \<notin> set xs \<Longrightarrow> readline (xs @ 10 # rest) = (xs @ [10], rest)"
  by (induction xs) auto

lemma strip_nonspace_ends:
  assumes "s \<noteq> []" "\<not> isspace (hd s)" "\<not> isspace (last s)"
  shows "strip (s @ [10]) = s"
proof -
  from assms(1) obtain c s' where s: "s = c # s'" by (cases s) auto
  from assms(1) obtain s'' d where s2: "s = s'' @ [d]" by (cases s rule: rev_cases) auto
  have "dropWhile isspace (s @ [10]) = s @ [10]" using s assms(2) by simp
  moreover have "isspace 10" by (simp add: isspace_def)
  moreover have "dropWhile isspace (rev s) = rev s" using s2 assms(3) by simp
  ultimately show ?thesis by (simp add: strip_def)
qed

lemma strip_nonspace:
  assumes "\<forall>c\<in>set s. \<not> isspace c"
  shows "strip (s @ [10]) = s"
proof (cases "s = []")
  case True
  then show ?thesis by (simp add: strip_def isspace_def)
next
  case False
  with assms show ?thesis by (intro strip_nonspace_ends) simp_all
qed

subsection \<open>Valid text\<close>

lemma utf8_char_valid: "valid_char c \<Longrightarrow> \<exists>bs. utf8_char c = Some bs \<and> bs \<noteq> []"
  by (auto simp: valid_char_def utf8_char_def)

lemma utf8_char_Some_valid: "utf8_char c = Some bs \<Longrightarrow> valid_char c"
  by (auto simp: valid_char_def utf8_char_def split: if_splits)

lemma utf8_encode_valid:
  "\<forall>c\<in>set s. valid_char c \<Longrightarrow> \<exists>raw. utf8_encode s = Inr raw \<and> (s \<noteq> [] \<longrightarrow> raw \<noteq> [])"
proof (induction s)
  case Nil
  then show ?case by simp
next
  case (Cons c s)
  then obtain raw where "utf8_encode s = Inr raw" by auto
  moreover from Cons.prems obtain bs where "utf8_char c = Some bs" "bs \<noteq> []"
    using utf8_char_valid [of c] by auto
  ultimately show ?case by simp
qed

lemma utf8_encode_Inr_valid:
  "utf8_encode s = Inr raw \<Longrightarrow> \<forall>c\<in>set s. valid_char c"
proof (induction s arbitrary: raw)
  case Nil
  then show ?case by simp
next
  case (Cons c s)
  then show ?case
    by (auto split: option.splits sum.splits dest: utf8_char_Some_valid)
qed

lemma valid_char_2:
  assumes "194 \<le> a" "a \<le> 223" "cont b"
  shows "valid_char ((a - 192) * 64 + (b - 128))"
proof -
  have "(a - 192) * 64 \<le> 31 * 64" using assms(2) by (intro mult_le_mono1) simp
  moreover have "b - 128 \<le> 63" using assms(3) unfolding cont_def by linarith
  ultimately show ?thesis by (simp add: valid_char_def)
qed

lemma valid_char_3:
  assumes "224 \<le> a" "a \<le> 239" "cont c"
    and "if a = 224 then 160 \<le> b \<and> b \<le> 191
         else if a = 237 then 128 \<le> b \<and> b \<le> 159 else cont b"
  shows "valid_char ((a - 224) * 4096 + (b - 128) * 64 + (c - 128))"
proof -
  have c: "c - 128 \<le> 63" using assms(3) unfolding cont_def by linarith
  have b: "b - 128 \<le> 63" using assms(4) by (auto simp: cont_def split: if_splits)
  then have b64: "(b - 128) * 64 \<le> 63 * 64" by (intro mult_le_mono1)
  consider "a \<le> 236" | "a = 237" | "238 \<le> a" by linarith
  then show ?thesis
  proof cases
    case 1
    then have "(a - 224) * 4096 \<le> 12 * 4096" by (intro mult_le_mono1) simp
    with b64 c show ?thesis by (simp add: valid_char_def)
  next
    case 2
    with assms(4) have "b - 128 \<le> 31" by (simp split: if_splits) linarith
    then have "(b - 128) * 64 \<le> 31 * 64" by (intro mult_le_mono1)
    with 2 c show ?thesis by (simp add: valid_char_def)
  next
    case 3
    then have "14 * 4096 \<le> (a - 224) * 4096" by (intro mult_le_mono1) simp
    moreover have "(a - 224) * 4096 \<le> 15 * 4096" using assms(2) by (intro mult_le_mono1) simp
    ultimately show ?thesis using b64 c by (simp add: valid_char_def)
  qed
qed

lemma valid_char_4:
  assumes "240 \<le> a" "a \<le> 244" "cont c" "cont d"
    and "if a = 240 then 144 \<le> b \<and> b \<le> 191
         else if a = 244 then 128 \<le> b \<and> b \<le> 143 else cont b"
  shows "valid_char ((a - 240) * 262144 + (b - 128) * 4096 + (c - 128) * 64 + (d - 128))"
proof -
  have d: "d - 128 \<le> 63" using assms(4) unfolding cont_def by linarith
  have "c - 128 \<le> 63" using assms(3) unfolding cont_def by linarith
  then have c64: "(c - 128) * 64 \<le> 63 * 64" by (intro mult_le_mono1)
  have "b - 128 \<le> 63" using assms(5) by (auto simp: cont_def split: if_splits)
  then have b64: "(b - 128) * 4096 \<le> 63 * 4096" by (intro mult_le_mono1)
  consider "a = 240" | "241 \<le> a \<and> a \<le> 243" | "a = 244" using assms(1,2) by linarith
  then show ?thesis
  proof cases
    case 1
    with assms(5) have "16 \<le> b - 128" by (simp split: if_splits) linarith
    then have "16 * 4096 \<le> (b - 128) * 4096" by (intro mult_le_mono1)
    with 1 b64 c64 d show ?thesis by (simp add: valid_char_def)
  next
    case 2
    then have "1 * 262144 \<le> (a - 240) * 262144" by (intro mult_le_mono1) linarith
    moreover have "(a - 240) * 262144 \<le> 3 * 262144" using 2 by (intro mult_le_mono1) linarith
    ultimately show ?thesis using b64 c64 d by (simp add: valid_char_def)
  next
    case 3
    with assms(5) have "b - 128 \<le> 15" by (simp split: if_splits) linarith
    then have "(b - 128) * 4096 \<le> 15 * 4096" by (intro mult_le_mono1)
    with 3 c64 d show ?thesis by (simp add: valid_char_def)
  qed
qed

lemma utf8_decode_valid:
  "utf8_decode bs = Inr s \<Longrightarrow> \<forall>c\<in>set s. valid_char c"
proof (induction bs arbitrary: s rule: utf8_decode.induct)
  case 1
  then show ?case by simp
next
  case (2 x0 xs)
  show ?case
  proof (cases "unat x0 < 0x80")
    case True
    with "2.prems" obtain cs where cs: "utf8_decode xs = Inr cs" "s = unat x0 # cs"
      by (auto simp: Let_def split: sum.splits)
    with "2.IH"(1) [OF refl True cs(1)] True show ?thesis by (simp add: valid_char_def)
  next
    case F1: False
    show ?thesis
    proof (cases "0xC2 \<le> unat x0 \<and> unat x0 \<le> 0xDF")
      case True
      with F1 "2.prems" obtain x1 ys cs where xs: "xs = x1 # ys" and c1: "cont (unat x1)"
        and cs: "utf8_decode ys = Inr cs"
        and s: "s = ((unat x0 - 0xC0) * 64 + (unat x1 - 0x80)) # cs"
        by (auto simp: Let_def split: sum.splits list.splits if_splits)
      have "valid_char ((unat x0 - 0xC0) * 64 + (unat x1 - 0x80))"
        using True c1 by (intro valid_char_2) simp_all
      with "2.IH"(2) [OF refl F1 True xs refl c1 cs] s show ?thesis by simp
    next
      case F2: False
      show ?thesis
      proof (cases "0xE0 \<le> unat x0 \<and> unat x0 \<le> 0xEF")
        case True
        with F1 F2 "2.prems" obtain x1 x2 ys cs where xs: "xs = x1 # x2 # ys"
          and c: "(if unat x0 = 0xE0 then 0xA0 \<le> unat x1 \<and> unat x1 \<le> 0xBF
                  else if unat x0 = 0xED then 0x80 \<le> unat x1 \<and> unat x1 \<le> 0x9F
                  else cont (unat x1)) \<and> cont (unat x2)"
          and cs: "utf8_decode ys = Inr cs"
          and s: "s = ((unat x0 - 0xE0) * 4096 + (unat x1 - 0x80) * 64 + (unat x2 - 0x80)) # cs"
          by (auto simp: Let_def split: sum.splits list.splits if_splits)
        have "valid_char ((unat x0 - 0xE0) * 4096 + (unat x1 - 0x80) * 64 + (unat x2 - 0x80))"
          using True c by (intro valid_char_3) simp_all
        with "2.IH"(3) [OF refl F1 F2 True xs refl refl refl c cs] s show ?thesis by simp
      next
        case F3: False
        show ?thesis
        proof (cases "0xF0 \<le> unat x0 \<and> unat x0 \<le> 0xF4")
          case True
          with F1 F2 F3 "2.prems" obtain x1 x2 x3 ys cs where xs: "xs = x1 # x2 # x3 # ys"
            and c: "(if unat x0 = 0xF0 then 0x90 \<le> unat x1 \<and> unat x1 \<le> 0xBF
                    else if unat x0 = 0xF4 then 0x80 \<le> unat x1 \<and> unat x1 \<le> 0x8F
                    else cont (unat x1)) \<and> cont (unat x2) \<and> cont (unat x3)"
            and cs: "utf8_decode ys = Inr cs"
            and s: "s = ((unat x0 - 0xF0) * 262144 + (unat x1 - 0x80) * 4096
                         + (unat x2 - 0x80) * 64 + (unat x3 - 0x80)) # cs"
            by (auto simp: Let_def split: sum.splits list.splits if_splits)
          have "valid_char ((unat x0 - 0xF0) * 262144 + (unat x1 - 0x80) * 4096
                         + (unat x2 - 0x80) * 64 + (unat x3 - 0x80))"
            using True c by (intro valid_char_4) simp_all
          with "2.IH"(4) [OF refl F1 F2 F3 True xs refl refl refl refl refl c cs] s show ?thesis by simp
        next
          case False
          with F1 F2 F3 "2.prems" show ?thesis by (simp add: Let_def split: if_splits)
        qed
      qed
    qed
  qed
qed

lemma translate_newlines_set: "set (translate_newlines s) \<subseteq> insert 10 (set s)"
  by (induction s rule: translate_newlines.induct) auto

lemma translate_newlines_valid:
  "\<forall>c\<in>set s. valid_char c \<Longrightarrow> \<forall>c\<in>set (translate_newlines s). valid_char c"
proof -
  assume a: "\<forall>c\<in>set s. valid_char c"
  have "valid_char 10" by (simp add: valid_char_def)
  with a translate_newlines_set [of s] show ?thesis by auto
qed

section \<open>JSON: digits\<close>

subsection \<open>Hexadecimal and decimal digits\<close>

lemma hex_val_hex_digit: "d < 16 \<Longrightarrow> hex_val (hex_digit d) = Some d"
  by (simp add: hex_val_def hex_digit_def)

lemma hex_digit_range: "d < 16 \<Longrightarrow> (48 \<le> hex_digit d \<and> hex_digit d \<le> 57) \<or> (97 \<le> hex_digit d \<and> hex_digit d \<le> 102)"
  by (simp add: hex_digit_def)

lemma hex4_sum:
  assumes "(n::nat) < 65536"
  shows "n div 4096 mod 16 * 4096 + n div 256 mod 16 * 256 + n div 16 mod 16 * 16 + n mod 16 = n"
proof -
  have a: "n = 16 * (n div 16) + n mod 16" by simp
  have b: "n div 16 = 16 * (n div 256) + n div 16 mod 16"
    using div_mult2_eq [of n 16 16] by simp
  have c: "n div 256 = 16 * (n div 4096) + n div 256 mod 16"
    using div_mult2_eq [of n 256 16] by simp
  have "n div 4096 < 16" using assms by simp
  then have d: "n div 4096 mod 16 = n div 4096" by simp
  show ?thesis using a b c d by linarith
qed

lemma decode_hex4: "n < 65536 \<Longrightarrow> decode_uXXXX (hex4 n @ rest) = Some n"
  using hex4_sum [of n] by (simp add: decode_uXXXX_def hex4_def hex_val_hex_digit)

lemma length_hex4 [simp]: "length (hex4 n) = 4"
  by (simp add: hex4_def)

lemma dec_digits_small: "n < 10 \<Longrightarrow> dec_digits n = [48 + n]"
  by (subst dec_digits.simps) simp

lemma dec_digits_big: "\<not> n < 10 \<Longrightarrow> dec_digits n = dec_digits (n div 10) @ [48 + n mod 10]"
  by (subst dec_digits.simps) simp

lemma dec_digits_digits: "\<forall>c\<in>set (dec_digits n). is_digit c"
proof (induction n rule: dec_digits.induct)
  case (1 n)
  show ?case
  proof (cases "n < 10")
    case True
    then show ?thesis by (simp add: dec_digits_small is_digit_def)
  next
    case False
    have "n mod 10 < 10" by simp
    then have "is_digit (48 + n mod 10)" unfolding is_digit_def by linarith
    with 1 False show ?thesis by (simp add: dec_digits_big)
  qed
qed

lemma dec_digits_nonempty: "dec_digits n \<noteq> []"
  by (subst dec_digits.simps) simp

lemma dec_digits_hd: "0 < n \<Longrightarrow> hd (dec_digits n) \<noteq> 48"
proof (induction n rule: dec_digits.induct)
  case (1 n)
  show ?case
  proof (cases "n < 10")
    case True
    with "1.prems" show ?thesis by (simp add: dec_digits_small)
  next
    case False
    then have "0 < n div 10" by simp
    with "1.IH" False have "hd (dec_digits (n div 10)) \<noteq> 48" by simp
    with False show ?thesis by (simp add: dec_digits_big dec_digits_nonempty)
  qed
qed

lemma dec_value_snoc: "dec_value (ds @ [d]) = 10 * dec_value ds + (d - 48)"
  by (simp add: dec_value_def)

lemma dec_value_dec_digits: "dec_value (dec_digits n) = n"
proof (induction n rule: dec_digits.induct)
  case (1 n)
  show ?case
  proof (cases "n < 10")
    case True
    then show ?thesis by (simp add: dec_digits_small dec_value_def)
  next
    case False
    with 1 have "dec_value (dec_digits (n div 10)) = n div 10" by simp
    with False show ?thesis by (simp add: dec_digits_big dec_value_snoc)
  qed
qed

lemma scan_digits_dec_digits:
  assumes "rest = [] \<or> \<not> is_digit (hd rest)"
  shows "scan_digits (dec_digits n @ rest) = Some (dec_digits n, rest)"
proof (cases "n = 0")
  case True
  then show ?thesis by (simp add: dec_digits_small scan_digits_def)
next
  case False
  obtain d ds where dd: "dec_digits n = d # ds"
    using dec_digits_nonempty [of n] by (cases "dec_digits n") auto
  from False dec_digits_hd [of n] dd have d48: "d \<noteq> 48" by simp
  from dec_digits_digits [of n] dd have dig: "is_digit d" "\<forall>c\<in>set ds. is_digit c" by simp_all
  have "takeWhile is_digit (ds @ rest) = ds" "dropWhile is_digit (ds @ rest) = rest"
    using dig(2) assms by (cases rest; simp)+
  with dd d48 dig(1) show ?thesis by (simp add: scan_digits_def)
qed

lemma int_str_first:
  "\<exists>c cs. int_str v = c # cs \<and> (c = 45 \<or> is_digit c)"
proof (cases "v < 0")
  case True
  then show ?thesis by (simp add: int_str_def)
next
  case False
  obtain d ds where dd: "dec_digits (nat v) = d # ds"
    using dec_digits_nonempty [of "nat v"] by (cases "dec_digits (nat v)") auto
  with dec_digits_digits [of "nat v"] have "is_digit d" by simp
  with False dd show ?thesis by (simp add: int_str_def)
qed

lemma scan_value_int_str:
  assumes "rest = c # rest'" "c = 44 \<or> c = 125"
  shows "scan_value (int_str v @ rest) = Inr (v, rest)"
proof -
  have nd: "rest = [] \<or> \<not> is_digit (hd rest)" using assms by (auto simp: is_digit_def)
  have nf: "\<not> float_part rest" using assms by (auto simp: float_part_def)
  show ?thesis
  proof (cases "v < 0")
    case True
    then show ?thesis
      using scan_digits_dec_digits [OF nd, of "nat (- v)"] nf
      by (simp add: int_str_def scan_value_def dec_value_dec_digits)
  next
    case False
    obtain d ds where dd: "dec_digits (nat v) = d # ds"
      using dec_digits_nonempty [of "nat v"] by (cases "dec_digits (nat v)") auto
    with dec_digits_digits [of "nat v"] have d: "is_digit d" by simp
    then have "d \<noteq> 45" by (auto simp: is_digit_def)
    moreover have "dec_value (d # ds) = nat v"
      using dec_value_dec_digits [of "nat v"] dd by simp
    ultimately show ?thesis
      using False d dd scan_digits_dec_digits [OF nd, of "nat v"] nf
      by (simp add: int_str_def scan_value_def)
  qed
qed

section \<open>JSON: strings and objects\<close>

subsection \<open>Strings\<close>

lemma scanstring_quote: "scanstring chunks (34 # rest) = Inr (chunks, rest)"
  by (simp add: scanstring.simps)

lemma scanstring_short_escape:
  "backslash esc = Some char \<Longrightarrow> esc \<noteq> 117 \<Longrightarrow>
   scanstring chunks (92 # esc # rest) = scanstring (chunks @ [char]) rest"
  by (simp add: scanstring.simps)

lemma scanstring_plain:
  "32 \<le> c \<Longrightarrow> c \<noteq> 34 \<Longrightarrow> c \<noteq> 92 \<Longrightarrow>
   scanstring chunks (c # rest) = scanstring (chunks @ [c]) rest"
  by (simp add: scanstring.simps)

lemma scanstring_u:
  "decode_uXXXX s1 = Some uni \<Longrightarrow>
   scanstring chunks (92 # 117 # s1) =
     (if 0xD800 \<le> uni \<and> uni \<le> 0xDBFF \<and> take 2 (drop 4 s1) = [92, 117] then
        (case decode_uXXXX (drop 6 s1) of
           None \<Rightarrow> Inl JSONDecodeError
         | Some uni2 \<Rightarrow>
             if 0xDC00 \<le> uni2 \<and> uni2 \<le> 0xDFFF then
               scanstring (chunks @ [0x10000 + ((uni - 0xD800) * 1024 + (uni2 - 0xDC00))])
                 (drop 10 s1)
             else scanstring (chunks @ [uni]) (drop 4 s1))
      else scanstring (chunks @ [uni]) (drop 4 s1))"
  by (subst scanstring.simps) simp

lemma scanstring_bmp:
  assumes "n < 65536" "\<not> (0xD800 \<le> n \<and> n \<le> 0xDBFF)"
  shows "scanstring chunks ([92, 117] @ hex4 n @ rest) = scanstring (chunks @ [n]) rest"
proof -
  have "scanstring chunks (92 # 117 # (hex4 n @ rest)) = scanstring (chunks @ [n]) rest"
    using assms(2) by (subst scanstring_u [OF decode_hex4 [OF assms(1)]]) auto
  then show ?thesis by simp
qed

lemma scanstring_pair:
  assumes "0xD800 \<le> hi" "hi \<le> 0xDBFF" "0xDC00 \<le> lo" "lo \<le> 0xDFFF"
  shows "scanstring chunks ([92, 117] @ hex4 hi @ [92, 117] @ hex4 lo @ rest)
           = scanstring (chunks @ [0x10000 + ((hi - 0xD800) * 1024 + (lo - 0xDC00))]) rest"
proof -
  let ?s1 = "hex4 hi @ 92 # 117 # hex4 lo @ rest"
  have hi: "hi < 65536" and lo: "lo < 65536" using assms by simp_all
  have 1: "decode_uXXXX ?s1 = Some hi" using decode_hex4 [OF hi] by simp
  have 2: "take 2 (drop 4 ?s1) = [92, 117]" by simp
  have 3: "decode_uXXXX (drop 6 ?s1) = Some lo" using decode_hex4 [OF lo, of rest] by simp
  have 4: "drop 10 ?s1 = rest" by simp
  have "scanstring chunks (92 # 117 # ?s1)
          = scanstring (chunks @ [0x10000 + ((hi - 0xD800) * 1024 + (lo - 0xDC00))]) rest"
    using assms by (subst scanstring_u [OF 1]) (simp only: 2 3 4, simp)
  then show ?thesis by simp
qed

lemma astral_split:
  assumes "0x10000 \<le> (c::nat)" "c < 0x110000"
  shows "0xD800 \<le> 0xD800 + (c - 0x10000) div 1024 mod 1024"
    "0xD800 + (c - 0x10000) div 1024 mod 1024 \<le> 0xDBFF"
    "0xDC00 \<le> 0xDC00 + (c - 0x10000) mod 1024"
    "0xDC00 + (c - 0x10000) mod 1024 \<le> 0xDFFF"
    "0x10000 + ((0xD800 + (c - 0x10000) div 1024 mod 1024 - 0xD800) * 1024
        + (0xDC00 + (c - 0x10000) mod 1024 - 0xDC00)) = c"
proof -
  define n where "n = c - 0x10000"
  have n: "n < 0x100000" "c = 0x10000 + n" using assms by (simp_all add: n_def)
  then have "n div 1024 < 1024" by simp
  then have m: "n div 1024 mod 1024 = n div 1024" by simp
  have r: "n mod 1024 < 1024" by simp
  have e: "n div 1024 * 1024 + n mod 1024 = n" by simp
  show "0xD800 \<le> 0xD800 + (c - 0x10000) div 1024 mod 1024" by simp
  show "0xD800 + (c - 0x10000) div 1024 mod 1024 \<le> 0xDBFF"
    using \<open>n div 1024 < 1024\<close> m by (simp add: n_def [symmetric])
  show "0xDC00 \<le> 0xDC00 + (c - 0x10000) mod 1024" by simp
  show "0xDC00 + (c - 0x10000) mod 1024 \<le> 0xDFFF"
    using r by (simp add: n_def [symmetric])
  show "0x10000 + ((0xD800 + (c - 0x10000) div 1024 mod 1024 - 0xD800) * 1024
        + (0xDC00 + (c - 0x10000) mod 1024 - 0xDC00)) = c"
    using m e n(2) by (simp add: n_def [symmetric])
qed

lemma scanstring_escape_char:
  assumes "valid_char c"
  shows "scanstring chunks (json_escape_char c @ rest) = scanstring (chunks @ [c]) rest"
proof -
  consider "c = 34" | "c = 92" | "c = 10" | "c = 13" | "c = 9" | "c = 8" | "c = 12"
    | "32 \<le> c \<and> c \<le> 126 \<and> c \<noteq> 34 \<and> c \<noteq> 92"
    | "c \<notin> {34, 92, 10, 13, 9, 8, 12} \<and> \<not> (32 \<le> c \<and> c \<le> 126) \<and> c < 0x10000"
    | "c \<notin> {34, 92, 10, 13, 9, 8, 12} \<and> \<not> (32 \<le> c \<and> c \<le> 126) \<and> \<not> c < 0x10000"
    by blast
  then show ?thesis
  proof cases
    case 8
    then show ?thesis by (simp add: json_escape_char_def scanstring_plain)
  next
    case 9
    with assms have "\<not> (0xD800 \<le> c \<and> c \<le> 0xDBFF)" by (auto simp: valid_char_def)
    moreover from 9 have "json_escape_char c = [92, 117] @ hex4 c"
      by (auto simp: json_escape_char_def)
    moreover from 9 have "c < 65536" by simp
    ultimately show ?thesis
      using scanstring_bmp [of c chunks rest] by simp
  next
    case 10
    with assms have c: "0x10000 \<le> c" "c < 0x110000" by (simp_all add: valid_char_def)
    from 10 have "json_escape_char c @ rest =
        [92, 117] @ hex4 (0xD800 + (c - 0x10000) div 1024 mod 1024)
           @ [92, 117] @ hex4 (0xDC00 + (c - 0x10000) mod 1024) @ rest"
      by (auto simp: json_escape_char_def)
    also have "scanstring chunks \<dots> = scanstring (chunks @ [c]) rest"
      using scanstring_pair [OF astral_split(1-4) [OF c], of chunks rest] astral_split(5) [OF c]
      by simp
    finally show ?thesis .
  qed (simp_all add: json_escape_char_def scanstring_short_escape backslash_def)
qed

lemma scanstring_escaped:
  "\<forall>c\<in>set key. valid_char c \<Longrightarrow>
   scanstring chunks (concat (map json_escape_char key) @ 34 # rest) = Inr (chunks @ key, rest)"
proof (induction key arbitrary: chunks)
  case Nil
  then show ?case by (simp add: scanstring_quote)
next
  case (Cons c key)
  have "scanstring chunks (json_escape_char c @ (concat (map json_escape_char key) @ 34 # rest))
          = scanstring (chunks @ [c]) (concat (map json_escape_char key) @ 34 # rest)"
    using Cons.prems by (intro scanstring_escape_char) simp
  with Cons show ?case by simp
qed

subsection \<open>Objects\<close>

lemma skip_ws_nows: "s = c # s' \<Longrightarrow> \<not> json_ws c \<Longrightarrow> skip_ws s = s"
  by (simp add: skip_ws_def)

lemma skip_ws_space: "skip_ws (32 # s) = skip_ws s"
  by (simp add: skip_ws_def json_ws_def)

lemma json_items_Cons:
  "json_items (kv # kvs) =
     json_item kv @ (if kvs = [] then [] else [44, 32] @ json_items kvs)"
  by (cases kvs) simp_all

lemma json_items_first:
  "json_items ((k, v) # kvs) = 34 # concat (map json_escape_char k) @ 34 # [58, 32] @ int_str v
      @ (if kvs = [] then [] else [44, 32] @ json_items kvs)"
  by (simp add: json_items_Cons json_item_def json_string_def)

lemma json_pairs_step:
  assumes "scanstring [] s = Inr (key, s1)" "skip_ws s1 = 58 # s2"
    "scan_value (skip_ws s2) = Inr (v, s3)" "skip_ws s3 = nextchar # s4"
  shows "json_pairs pairs s =
    (if nextchar = 125 then Inr (pairs @ [(key, v)], s4)
     else if nextchar \<noteq> 44 then Inl JSONDecodeError
     else (case skip_ws s4 of
             [] \<Rightarrow> Inl JSONDecodeError
           | quote # s5 \<Rightarrow>
               if quote \<noteq> 34 then Inl JSONDecodeError
               else json_pairs (pairs @ [(key, v)]) s5))"
  by (subst json_pairs.simps) (simp add: assms)

lemma skip_ws_int_str: "skip_ws (32 # int_str v @ rest) = int_str v @ rest"
proof -
  obtain c cs where ic: "int_str v = c # cs" "c = 45 \<or> is_digit c"
    using int_str_first by blast
  then have "\<not> json_ws c" by (auto simp: json_ws_def is_digit_def)
  with ic(1) show ?thesis by (simp add: skip_ws_def json_ws_def)
qed

lemma json_pairs_items:
  "\<forall>kv\<in>set (kv0 # kvs). \<forall>c\<in>set (fst kv). valid_char c \<Longrightarrow>
   json_pairs pairs (tl (json_items (kv0 # kvs)) @ 125 # rest) = Inr (pairs @ kv0 # kvs, rest)"
proof (induction kvs arbitrary: kv0 pairs)
  case Nil
  obtain k v where kv: "kv0 = (k, v)" by (cases kv0)
  with Nil have valid: "\<forall>c\<in>set k. valid_char c" by simp
  let ?s1 = "[58, 32] @ int_str v @ 125 # rest"
  have 1: "scanstring [] (concat (map json_escape_char k) @ 34 # ?s1) = Inr (k, ?s1)"
    using scanstring_escaped [OF valid, of "[]" ?s1] by simp
  have 2: "skip_ws ?s1 = 58 # (32 # int_str v @ 125 # rest)"
    by (simp add: skip_ws_def json_ws_def)
  have 3: "scan_value (skip_ws (32 # int_str v @ 125 # rest)) = Inr (v, 125 # rest)"
    unfolding skip_ws_int_str by (rule scan_value_int_str [OF refl]) simp
  have 4: "skip_ws (125 # rest) = 125 # rest"
    by (simp add: skip_ws_def json_ws_def)
  have "json_pairs pairs (concat (map json_escape_char k) @ 34 # ?s1)
          = Inr (pairs @ [(k, v)], rest)"
    by (subst json_pairs_step [OF 1 2 3 4]) simp
  then show ?case by (simp add: kv json_item_def json_string_def)
next
  case (Cons kv1 kvs)
  obtain k v where kv: "kv0 = (k, v)" by (cases kv0)
  with Cons.prems have valid: "\<forall>c\<in>set k. valid_char c" by simp
  obtain k1 v1 where kv1: "kv1 = (k1, v1)" by (cases kv1)
  let ?tail = "tl (json_items (kv1 # kvs)) @ 125 # rest"
  have items: "json_items (kv1 # kvs) @ 125 # rest = 34 # ?tail"
    by (simp add: kv1 json_items_first)
  let ?s3 = "44 # 32 # 34 # ?tail"
  let ?s1 = "[58, 32] @ int_str v @ ?s3"
  have 1: "scanstring [] (concat (map json_escape_char k) @ 34 # ?s1) = Inr (k, ?s1)"
    using scanstring_escaped [OF valid, of "[]" ?s1] by simp
  have 2: "skip_ws ?s1 = 58 # (32 # int_str v @ ?s3)"
    by (simp add: skip_ws_def json_ws_def)
  have 3: "scan_value (skip_ws (32 # int_str v @ ?s3)) = Inr (v, ?s3)"
    unfolding skip_ws_int_str by (rule scan_value_int_str [OF refl]) simp
  have 4: "skip_ws ?s3 = 44 # (32 # 34 # ?tail)"
    by (simp add: skip_ws_def json_ws_def)
  have 5: "skip_ws (32 # 34 # ?tail) = 34 # ?tail"
    by (simp add: skip_ws_def json_ws_def)
  have IH: "json_pairs (pairs @ [(k, v)]) ?tail = Inr ((pairs @ [(k, v)]) @ kv1 # kvs, rest)"
    using Cons.prems by (intro Cons.IH) simp
  have "json_pairs pairs (concat (map json_escape_char k) @ 34 # ?s1)
          = Inr (pairs @ (k, v) # kv1 # kvs, rest)"
    by (subst json_pairs_step [OF 1 2 3 4]) (simp add: 5 IH)
  moreover have "tl (json_items (kv0 # kv1 # kvs)) @ 125 # rest
      = concat (map json_escape_char k) @ 34 # ?s1"
    unfolding kv json_items_first using items by simp
  ultimately show ?case by (simp add: kv)
qed

lemma dict_set_new: "k \<notin> fst ` set d \<Longrightarrow> dict_set d k v = d @ [(k, v)]"
  by (induction d k v rule: dict_set.induct) auto

lemma dict_of_pairs_distinct:
  "distinct (map fst (d @ pairs)) \<Longrightarrow> dict_of_pairs d pairs = d @ pairs"
proof (induction d pairs rule: dict_of_pairs.induct)
  case (1 d)
  then show ?case by simp
next
  case (2 d k v pairs)
  from "2.prems" have "k \<notin> fst ` set d" by auto
  then have "dict_set d k v = d @ [(k, v)]" by (rule dict_set_new)
  with 2 show ?case by simp
qed

lemma json_loads_dumps:
  assumes "distinct (map fst frequency)"
    and "\<forall>kv\<in>set frequency. \<forall>c\<in>set (fst kv). valid_char c"
  shows "json_loads (json_dumps frequency) = Inr frequency"
proof (cases frequency)
  case Nil
  then show ?thesis
    by (simp add: json_loads_def json_dumps_def skip_ws_def json_ws_def json_end_def)
next
  case (Cons kv kvs)
  obtain k v where kv: "kv = (k, v)" by (cases kv)
  have items: "json_items (kv # kvs) = 34 # tl (json_items (kv # kvs))"
    by (simp add: kv json_items_first)
  have jp: "json_pairs [] (tl (json_items (kv # kvs)) @ [125]) = Inr ([] @ kv # kvs, [])"
    using assms(2) Cons by (intro json_pairs_items) simp
  have d: "dict_of_pairs [] (kv # kvs) = [] @ kv # kvs"
    using assms(1) Cons by (intro dict_of_pairs_distinct) simp
  have "json_loads (123 # 34 # tl (json_items (kv # kvs)) @ [125]) = Inr (kv # kvs)"
    using jp d
    by (simp add: json_loads_def skip_ws_def json_ws_def json_end_def del: dict_of_pairs.simps)
  moreover have "json_dumps frequency = 123 # 34 # tl (json_items (kv # kvs)) @ [125]"
    unfolding Cons json_dumps_def by (subst items) simp
  ultimately show ?thesis using Cons by simp
qed

section \<open>The container\<close>

subsection \<open>The characters of the two header lines\<close>

lemma hex_digit_printable: "d < 16 \<Longrightarrow> printable (hex_digit d)"
  by (simp add: hex_digit_def printable_def)

lemma hex4_printable: "\<forall>c\<in>set (hex4 n). printable c"
  by (simp add: hex4_def hex_digit_printable)

lemma json_escape_char_printable: "\<forall>x\<in>set (json_escape_char c). printable x"
proof -
  have "\<forall>x\<in>set [92, 117]. printable x" by (simp add: printable_def)
  then show ?thesis
    using hex4_printable
    by (auto simp: json_escape_char_def printable_def)
qed

lemma json_string_printable: "\<forall>x\<in>set (json_string s). printable x"
proof -
  have "printable 34" by (simp add: printable_def)
  then show ?thesis using json_escape_char_printable by (auto simp: json_string_def)
qed

lemma is_digit_printable: "is_digit c \<Longrightarrow> printable c"
  by (simp add: is_digit_def printable_def)

lemma int_str_printable: "\<forall>x\<in>set (int_str v). printable x"
proof -
  have "printable 45" by (simp add: printable_def)
  then show ?thesis
    using dec_digits_digits is_digit_printable by (auto simp: int_str_def)
qed

lemma json_item_printable: "\<forall>x\<in>set (json_item kv). printable x"
proof -
  have "printable 58" "printable 32" by (simp_all add: printable_def)
  then show ?thesis
    using json_string_printable int_str_printable by (auto simp: json_item_def)
qed

lemma json_items_printable: "\<forall>x\<in>set (json_items kvs). printable x"
proof (induction kvs rule: json_items.induct)
  case 1
  then show ?case by simp
next
  case (2 kv)
  then show ?case using json_item_printable by simp
next
  case (3 kv v va)
  have "printable 44" "printable 32" by (simp_all add: printable_def)
  with 3 json_item_printable [of kv] show ?case by auto
qed

lemma json_dumps_printable: "\<forall>x\<in>set (json_dumps frequency). printable x"
proof -
  have "printable 123" "printable 125" by (simp_all add: printable_def)
  then show ?thesis using json_items_printable by (auto simp: json_dumps_def)
qed

lemma json_dumps_ends:
  "json_dumps frequency \<noteq> [] \<and> hd (json_dumps frequency) = 123
   \<and> last (json_dumps frequency) = 125"
  by (simp add: json_dumps_def)

lemma unat_and_15: "unat ((w :: u32) AND 15) < 16"
proof -
  have "unat (w AND 15) \<le> unat (15 :: u32)"
    by (rule word_and_le1 [THEN word_le_nat_alt [THEN iffD1]])
  then show ?thesis by simp
qed

lemma hex_of_word_printable: "\<forall>c\<in>set (hex_of_word w). printable c \<and> c \<noteq> 32"
proof -
  have "printable (hex_digit d) \<and> hex_digit d \<noteq> 32" if "d < 16" for d
    using that by (simp add: hex_digit_def printable_def)
  then show ?thesis using unat_and_15 by (auto simp: hex_of_word_def)
qed

lemma sha256_hexdigest_printable:
  "\<forall>c\<in>set (sha256_hexdigest m). printable c \<and> c \<noteq> 32"
  using hex_of_word_printable by (auto simp: sha256_hexdigest_def)

lemma printable_facts:
  "printable c \<Longrightarrow> c < 128 \<and> c \<noteq> 10"
  "printable c \<Longrightarrow> c \<noteq> 32 \<Longrightarrow> \<not> isspace c"
  by (auto simp: printable_def isspace_def)

subsection \<open>Reading back a header line\<close>

lemma header_line:
  assumes "\<forall>c\<in>set s. printable c"
    and "(\<forall>c\<in>set s. c \<noteq> 32) \<or> (s \<noteq> [] \<and> hd s \<noteq> 32 \<and> last s \<noteq> 32)"
  shows "utf8_encode s = Inr (ascii_bytes s)"
    and "10 \<notin> set (ascii_bytes s)"
    and "readline (ascii_bytes s @ 10 # rest) = (ascii_bytes s @ [10], rest)"
    and "utf8_decode (ascii_bytes s @ [10]) = Inr (s @ [10])"
    and "strip (s @ [10]) = s"
proof -
  have a: "\<forall>c\<in>set s. c < 128" and n: "\<forall>c\<in>set s. c < 128 \<and> c \<noteq> 10"
    using assms(1) printable_facts(1) by auto
  show "utf8_encode s = Inr (ascii_bytes s)" using a by (rule utf8_encode_ascii)
  show nl: "10 \<notin> set (ascii_bytes s)" using n by (rule ascii_bytes_no_newline)
  then show "readline (ascii_bytes s @ 10 # rest) = (ascii_bytes s @ [10], rest)"
    by (rule readline_line)
  have "\<forall>c\<in>set (s @ [10]). c < 128" using a by simp
  then have "utf8_decode (ascii_bytes (s @ [10])) = Inr (s @ [10])"
    by (rule utf8_decode_ascii)
  then show "utf8_decode (ascii_bytes s @ [10]) = Inr (s @ [10])"
    by (simp add: ascii_bytes_def)
  from assms(2) show "strip (s @ [10]) = s"
  proof
    assume "\<forall>c\<in>set s. c \<noteq> 32"
    with assms(1) have "\<forall>c\<in>set s. \<not> isspace c" using printable_facts(2) by auto
    then show ?thesis by (rule strip_nonspace)
  next
    assume e: "s \<noteq> [] \<and> hd s \<noteq> 32 \<and> last s \<noteq> 32"
    then have "hd s \<in> set s" "last s \<in> set s" by simp_all
    with assms(1) e have "\<not> isspace (hd s)" "\<not> isspace (last s)"
      using printable_facts(2) by auto
    with e show ?thesis by (intro strip_nonspace_ends) simp_all
  qed
qed

lemma read_container_header:
  assumes "distinct (map fst frequency)"
    and "\<forall>kv\<in>set frequency. \<forall>c\<in>set (fst kv). valid_char c"
    and "\<forall>c\<in>set h. printable c \<and> c \<noteq> 32"
  shows "read_container (ascii_bytes h @ 10 # ascii_bytes (json_dumps frequency) @ 10 # byte_array)
         = Inr (h, frequency, byte_array)"
proof -
  let ?j = "json_dumps frequency"
  have hp: "\<forall>c\<in>set h. printable c"
    and hs: "(\<forall>c\<in>set h. c \<noteq> 32) \<or> (h \<noteq> [] \<and> hd h \<noteq> 32 \<and> last h \<noteq> 32)"
    using assms(3) by auto
  have jp: "\<forall>c\<in>set ?j. printable c" by (rule json_dumps_printable)
  have js: "(\<forall>c\<in>set ?j. c \<noteq> 32) \<or> (?j \<noteq> [] \<and> hd ?j \<noteq> 32 \<and> last ?j \<noteq> 32)"
    using json_dumps_ends [of frequency] by simp
  have 1: "readline (ascii_bytes h @ 10 # ascii_bytes ?j @ 10 # byte_array)
             = (ascii_bytes h @ [10], ascii_bytes ?j @ 10 # byte_array)"
    by (rule header_line(3) [OF hp hs])
  have 2: "readline (ascii_bytes ?j @ 10 # byte_array) = (ascii_bytes ?j @ [10], byte_array)"
    by (rule header_line(3) [OF jp js])
  show ?thesis
    unfolding read_container_def
    by (simp add: 1 2 header_line(4,5) [OF hp hs] header_line(4,5) [OF jp js]
        json_loads_dumps [OF assms(1,2)])
qed

lemma read_container_written:
  assumes "distinct (map fst frequency)"
    and "\<forall>kv\<in>set frequency. \<forall>c\<in>set (fst kv). valid_char c"
  shows "read_container
           (ascii_bytes (sha256_hexdigest m) @ 10 # ascii_bytes (json_dumps frequency) @ 10
              # byte_array)
         = Inr (sha256_hexdigest m, frequency, byte_array)"
  using assms sha256_hexdigest_printable by (rule read_container_header)

section \<open>The pipeline\<close>

subsection \<open>The compression pipeline\<close>

lemma make_frequency_dict_valid:
  "\<forall>c\<in>set cs. valid_char c \<Longrightarrow>
   \<forall>kv\<in>set (make_frequency_dict cs). \<forall>c\<in>set (fst kv). valid_char c"
proof -
  assume v: "\<forall>c\<in>set cs. valid_char c"
  have k: "fst ` set (make_frequency_dict cs) = (\<lambda>c. [c]) ` set cs"
    using make_frequency_dict_keys [of cs] by simp
  show ?thesis
  proof (intro ballI)
    fix kv c assume "kv \<in> set (make_frequency_dict cs)" "c \<in> set (fst kv)"
    then have "fst kv \<in> (\<lambda>c. [c]) ` set cs" using k by blast
    then obtain d where "d \<in> set cs" "fst kv = [d]" by blast
    with \<open>c \<in> set (fst kv)\<close> v show "valid_char c" by simp
  qed
qed

lemma make_frequency_dict_nonempty: "cs \<noteq> [] \<Longrightarrow> make_frequency_dict cs \<noteq> []"
  using length_make_frequency_dict [of cs] by (auto simp: card_eq_0_iff)

lemma write_container_ok:
  "write_container (sha256_hexdigest m) frequency byte_array =
     (Inr (), ascii_bytes (sha256_hexdigest m) @ 10 # ascii_bytes (json_dumps frequency) @ 10
                # byte_array)"
proof -
  have "\<forall>c\<in>set (sha256_hexdigest m). c < 128"
    using sha256_hexdigest_printable printable_facts(1) by blast
  then have 1: "utf8_encode (sha256_hexdigest m) = Inr (ascii_bytes (sha256_hexdigest m))"
    by (rule utf8_encode_ascii)
  have "\<forall>c\<in>set (json_dumps frequency). c < 128"
    using json_dumps_printable printable_facts(1) by blast
  then have 2: "utf8_encode (json_dumps frequency) = Inr (ascii_bytes (json_dumps frequency))"
    by (rule utf8_encode_ascii)
  show ?thesis by (simp add: write_container_def 1 2)
qed

text \<open>What \<open>encode_text\<close> computes for a non-empty text of valid characters.\<close>

lemma encode_text_result:
  assumes "cs \<noteq> []" "\<forall>c\<in>set cs. valid_char c"
  obtains raw root where
    "utf8_encode cs = Inr raw" "raw \<noteq> []"
    "build_tree (make_frequency_dict cs) = Inr root"
    "set (symbols root) = (\<lambda>c. [c]) ` set cs"
    "encode_text cs =
       Inr (sha256_hexdigest raw, make_frequency_dict cs,
            get_byte_array (pad_encoded_text (concat (map (\<lambda>c. code_path root [c]) cs))))"
proof -
  from assms obtain raw where raw: "utf8_encode cs = Inr raw" "raw \<noteq> []"
    using utf8_encode_valid [of cs] by auto
  from assms(1) obtain root where root: "build_tree (make_frequency_dict cs) = Inr root"
    using build_tree_nonempty [OF make_frequency_dict_nonempty] by blast
  have "set (symbols root) = set (map fst (make_frequency_dict cs))"
    using mset_symbols_build_tree [OF root] by (rule mset_eq_setD)
  then have syms: "set (symbols root) = (\<lambda>c. [c]) ` set cs"
    by (simp only: make_frequency_dict_keys)
  then have "\<forall>c\<in>set cs. [c] \<in> set (symbols root)" by simp
  then have "get_encoded_text (make_codes root) cs
               = Inr (concat (map (\<lambda>c. code_path root [c]) cs))"
    by (rule get_encoded_text_path)
  then have "encode_text cs =
       Inr (sha256_hexdigest raw, make_frequency_dict cs,
            get_byte_array (pad_encoded_text (concat (map (\<lambda>c. code_path root [c]) cs))))"
    by (simp add: encode_text_def raw root Let_def)
  with raw root syms show ?thesis using that by blast
qed

lemma unpad_bytes:
  "remove_padding (bytes_to_bit_string (get_byte_array (pad_encoded_text e))) = Inr e"
proof -
  have "bytes_to_bit_string (get_byte_array (pad_encoded_text e)) = pad_encoded_text e"
    using length_pad_encoded_text_mod8 by (rule bit_string_of_byte_array)
  then show ?thesis by (simp add: remove_padding_pad)
qed

lemma decode_payload_padded:
  "build_tree frequency = Inr root \<Longrightarrow>
   decode_payload frequency (get_byte_array (pad_encoded_text e)) = decode_text e root"
  by (simp add: decode_payload_def Let_def unpad_bytes)

lemma decode_payload_roundtrip:
  assumes "2 \<le> card (set cs)" "build_tree (make_frequency_dict cs) = Inr root"
    "set (symbols root) = (\<lambda>c. [c]) ` set cs"
  shows "decode_payload (make_frequency_dict cs)
           (get_byte_array (pad_encoded_text (concat (map (\<lambda>c. code_path root [c]) cs))))
         = Inr cs"
proof -
  have "2 \<le> length (make_frequency_dict cs)"
    using assms(1) by (simp add: length_make_frequency_dict)
  with assms(2) obtain f l r where m: "root = Merged f l r"
    using build_tree_Merged by blast
  have "\<forall>c\<in>set cs. [c] \<in> set (symbols (Merged f l r))"
    using assms(3) m by simp
  then have "decode_loop (Merged f l r) (Merged f l r) []
       (concat (map (\<lambda>c. code_path (Merged f l r) [c]) cs)) = Inr ([] @ cs)"
    by (rule decode_loop_text)
  then show ?thesis
    by (simp add: decode_payload_padded [OF assms(2)] decode_text_def m)
qed

section \<open>The code table\<close>

lemma code_table_Inl: "code_table frequency = Inl e \<Longrightarrow> frequency = [] \<and> e = IndexError ''list index out of range''"
proof (cases "frequency = []")
  case True
  assume "code_table frequency = Inl e"
  with True show ?thesis by (simp add: code_table_def build_tree_empty)
next
  case False
  assume a: "code_table frequency = Inl e"
  from False obtain root where "build_tree frequency = Inr root"
    using build_tree_nonempty by blast
  with a show ?thesis by (simp add: code_table_def)
qed

lemma code_table_Inr:
  assumes "distinct (map fst frequency)" "code_table frequency = Inr codes"
  shows "dom codes = set (map fst frequency)"
    and "a \<noteq> b \<Longrightarrow> codes a = Some ca \<Longrightarrow> codes b = Some cb \<Longrightarrow> \<not> prefix ca cb"
proof -
  from assms(2) obtain root where root: "build_tree frequency = Inr root"
    and codes: "codes = make_codes root"
    by (auto simp: code_table_def split: sum.splits)
  have m: "mset (symbols root) = mset (map fst frequency)"
    using root by (rule mset_symbols_build_tree)
  then have s: "set (symbols root) = set (map fst frequency)" by (rule mset_eq_setD)
  from m assms(1) have d: "distinct (symbols root)" by (metis mset_eq_imp_distinct_iff)
  show "dom codes = set (map fst frequency)" using s by (simp add: codes dom_make_codes)
  show "\<not> prefix ca cb" if "a \<noteq> b" "codes a = Some ca" "codes b = Some cb"
  proof -
    from that(2,3) have ab: "a \<in> set (symbols root)" "b \<in> set (symbols root)"
      and c: "ca = code_path root a" "cb = code_path root b"
      by (auto simp: codes make_codes_eq split: if_splits)
    show ?thesis unfolding c using d ab that(1) by (rule path_prefix_free)
  qed
qed

text \<open>
  C7. For a frequency table (a dictionary: its keys are distinct), the code table has
  exactly the keys of the table as its keys, so every symbol of the table has one code,
  and the code of one symbol is never a prefix of the code of another symbol. The empty
  table has no symbols and gets no code table: \<open>self.heap[0]\<close> raises \<open>IndexError\<close>.
\<close>

theorem code_table_prefix_free:
  assumes "distinct (map fst frequency)"
  shows "case code_table frequency of
           Inl e \<Rightarrow> frequency = [] \<and> e = IndexError ''list index out of range''
         | Inr codes \<Rightarrow>
             dom codes = set (map fst frequency)
             \<and> (\<forall>a b ca cb. a \<noteq> b \<and> codes a = Some ca \<and> codes b = Some cb
                   \<longrightarrow> \<not> prefix ca cb)"
proof (cases "code_table frequency")
  case (Inl e)
  then show ?thesis using code_table_Inl by simp
next
  case (Inr codes)
  then show ?thesis using code_table_Inr [OF assms Inr] by auto
qed

lemma example_tree:
  "build_tree [([97], 3), ([98], 2), ([99], 1)]
     = Inr (Merged 6 (Leaf [97] 3) (Merged 3 (Leaf [99] 1) (Leaf [98] 2)))"
  by code_simp

theorem code_table_prefix_free_witness:
  "distinct (map fst [([97], 3), ([98], 2), ([99::nat], 1::int)])
   \<and> (\<exists>codes. code_table [([97], 3), ([98], 2), ([99], 1)] = Inr codes
        \<and> codes [97] = Some [False] \<and> codes [99] = Some [True, False]
        \<and> codes [98] = Some [True, True]
        \<and> dom codes = {[97], [98], [99]}
        \<and> \<not> prefix [False] [True, False] \<and> \<not> prefix [True, False] [True, True])"
proof -
  have d: "distinct (map fst [([97], 3), ([98], 2), ([99::nat], 1::int)])" by simp
  obtain codes where c: "code_table [([97], 3), ([98], 2), ([99], 1)] = Inr codes"
    by (simp add: code_table_def example_tree)
  then have v: "codes [97] = Some [False]" "codes [99] = Some [True, False]"
    "codes [98] = Some [True, True]"
    by (auto simp: code_table_def example_tree make_codes_def)
  from code_table_prefix_free [OF d] c
  have "dom codes = {[97], [98], [99]}"
    and "\<forall>a b ca cb. a \<noteq> b \<and> codes a = Some ca \<and> codes b = Some cb \<longrightarrow> \<not> prefix ca cb"
    by auto
  with d c v show ?thesis by auto
qed

subsection \<open>The two operations\<close>

lemma encode_text_empty: "encode_text [] = Inl (IndexError ''list index out of range'')"
  by (simp add: encode_text_def make_frequency_dict_def build_tree_empty)

lemma compress_file_empty:
  "fs path = Some [] \<Longrightarrow> compress_file fs path output_path = (Inl (IndexError ''list index out of range''), fs)"
  by (simp add: compress_file_def encode_text_empty)

text \<open>
  C3, as amended. \<open>compress_file\<close> on a file of length zero fails: it raises the
  \<open>IndexError\<close> of \<open>root = self.heap[0]\<close> (the heap is empty), with the message
  \<open>list index out of range\<close>, before the output file is opened. The caller gets that
  exception and the file system is unchanged: no output file is produced and nothing
  succeeds silently.
\<close>

theorem compress_empty_fails:
  "fs path = Some [] \<Longrightarrow> compress_file fs path output_path = (Inl (IndexError ''list index out of range''), fs)"
  by (rule compress_file_empty)

theorem compress_empty_fails_witness:
  "[''empty.txt'' \<mapsto> []] ''empty.txt'' = Some ([] :: byte list)
   \<and> compress_file [''empty.txt'' \<mapsto> []] ''empty.txt'' None
       = (Inl (IndexError ''list index out of range''), [''empty.txt'' \<mapsto> []])"
  using compress_empty_fails [of "[''empty.txt'' \<mapsto> []]" "''empty.txt''" None] by simp

text \<open>
  The claim C3 as stated asks for a failure that carries enough context to diagnose,
  such as the offending path. The exception raised on the empty file \<open>empty.txt\<close> is
  the \<open>IndexError\<close> of \<open>self.heap[0]\<close>; its message does not contain the path.
\<close>

theorem compress_empty_context_counterexample:
  "fst (compress_file [''empty.txt'' \<mapsto> []] ''empty.txt'' None)
     = Inl (IndexError ''list index out of range'')
   \<and> \<not> sublist ''empty.txt'' ''list index out of range''"
proof -
  have "\<not> sublist ''empty.txt'' ''list index out of range''"
  proof
    assume "sublist ''empty.txt'' ''list index out of range''"
    then have "set ''empty.txt'' \<subseteq> set ''list index out of range''"
      by (rule set_mono_sublist)
    then show False by simp
  qed
  then show ?thesis by (simp add: compress_file_empty)
qed

lemma compress_file_text:
  assumes "fs path = Some data" "utf8_decode data = Inr decoded"
    and "cs = translate_newlines decoded" "cs \<noteq> []"
  obtains raw root where
    "utf8_encode cs = Inr raw"
    "build_tree (make_frequency_dict cs) = Inr root"
    "set (symbols root) = (\<lambda>c. [c]) ` set cs"
    "compress_file fs path output_path =
       (Inr (compress_output_path path output_path),
        fs(compress_output_path path output_path \<mapsto>
             ascii_bytes (sha256_hexdigest raw) @ 10
               # ascii_bytes (json_dumps (make_frequency_dict cs)) @ 10
               # get_byte_array (pad_encoded_text (concat (map (\<lambda>c. code_path root [c]) cs)))))"
proof -
  have valid: "\<forall>c\<in>set cs. valid_char c"
    unfolding assms(3) using assms(2) by (intro translate_newlines_valid utf8_decode_valid)
  from encode_text_result [OF assms(4) valid] obtain raw root where
    r: "utf8_encode cs = Inr raw" "raw \<noteq> []"
      "build_tree (make_frequency_dict cs) = Inr root"
      "set (symbols root) = (\<lambda>c. [c]) ` set cs"
      "encode_text cs =
         Inr (sha256_hexdigest raw, make_frequency_dict cs,
              get_byte_array (pad_encoded_text (concat (map (\<lambda>c. code_path root [c]) cs))))"
    by blast
  have "compress_file fs path output_path =
       (Inr (compress_output_path path output_path),
        fs(compress_output_path path output_path \<mapsto>
             ascii_bytes (sha256_hexdigest raw) @ 10
               # ascii_bytes (json_dumps (make_frequency_dict cs)) @ 10
               # get_byte_array (pad_encoded_text (concat (map (\<lambda>c. code_path root [c]) cs)))))"
    using assms(1,2) r(1,2)
    by (simp add: compress_file_def assms(3) [symmetric] r(5) write_container_ok Let_def)
  with r show ?thesis using that by blast
qed

lemma read_container_compressed:
  assumes "\<forall>c\<in>set cs. valid_char c"
  shows "read_container
           (ascii_bytes (sha256_hexdigest m) @ 10
              # ascii_bytes (json_dumps (make_frequency_dict cs)) @ 10 # byte_array)
         = Inr (sha256_hexdigest m, make_frequency_dict cs, byte_array)"
  using make_frequency_dict_distinct make_frequency_dict_valid [OF assms]
  by (rule read_container_written)

lemma decompress_file_checked:
  assumes "fs path = Some data"
    "read_container data = Inr (file_hash, frequency, byte_array)"
    "decode_payload frequency byte_array = Inr decompressed_text"
    "utf8_encode decompressed_text = Inr raw"
  shows "decompress_file fs path output_path =
     (if sha256_hexdigest raw \<noteq> file_hash
      then (Inl (ValueError ''File integrity check failed''), fs)
      else (Inr (decompress_output_path path output_path),
            fs(decompress_output_path path output_path \<mapsto> raw)))"
  using assms by (simp add: decompress_file_def Let_def)

lemma roundtrip_text:
  assumes "fs path = Some data" "utf8_decode data = Inr decoded"
    and "T = translate_newlines decoded" "2 \<le> card (set T)"
  shows "\<exists>container raw.
           compress_file fs path output_path
             = (Inr (compress_output_path path output_path),
                fs(compress_output_path path output_path \<mapsto> container))
         \<and> utf8_encode T = Inr raw
         \<and> decompress_file (fs(compress_output_path path output_path \<mapsto> container))
               (compress_output_path path output_path) output_path'
             = (Inr (decompress_output_path (compress_output_path path output_path) output_path'),
                (fs(compress_output_path path output_path \<mapsto> container))
                  (decompress_output_path (compress_output_path path output_path) output_path'
                     \<mapsto> raw))"
proof -
  let ?cp = "compress_output_path path output_path"
  from assms(4) have ne: "T \<noteq> []" by auto
  have valid: "\<forall>c\<in>set T. valid_char c"
    unfolding assms(3) using assms(2) by (intro translate_newlines_valid utf8_decode_valid)
  obtain raw root where
    r: "utf8_encode T = Inr raw"
      "build_tree (make_frequency_dict T) = Inr root"
      "set (symbols root) = (\<lambda>c. [c]) ` set T"
      "compress_file fs path output_path =
       (Inr ?cp,
        fs(?cp \<mapsto>
             ascii_bytes (sha256_hexdigest raw) @ 10
               # ascii_bytes (json_dumps (make_frequency_dict T)) @ 10
               # get_byte_array (pad_encoded_text (concat (map (\<lambda>c. code_path root [c]) T)))))"
    using assms(1,2,3) ne by (rule compress_file_text [where output_path = output_path])
  let ?payload = "get_byte_array (pad_encoded_text (concat (map (\<lambda>c. code_path root [c]) T)))"
  let ?container = "ascii_bytes (sha256_hexdigest raw) @ 10
               # ascii_bytes (json_dumps (make_frequency_dict T)) @ 10 # ?payload"
  let ?fs1 = "fs(?cp \<mapsto> ?container)"
  have 1: "?fs1 ?cp = Some ?container" by simp
  have 2: "read_container ?container = Inr (sha256_hexdigest raw, make_frequency_dict T, ?payload)"
    using valid by (rule read_container_compressed)
  have 3: "decode_payload (make_frequency_dict T) ?payload = Inr T"
    using assms(4) r(2,3) by (rule decode_payload_roundtrip)
  have "decompress_file ?fs1 ?cp output_path'
          = (Inr (decompress_output_path ?cp output_path'),
             ?fs1(decompress_output_path ?cp output_path' \<mapsto> raw))"
    using 1 2 3 r(1)
    by (simp add: decompress_file_checked
        [where fs = ?fs1 and path = ?cp and data = ?container and output_path = output_path'])
  with r(1,4) show ?thesis by blast
qed

subsection \<open>Encoding a decoded text gives the bytes back\<close>

lemma translate_newlines_no_cr: "13 \<notin> set s \<Longrightarrow> translate_newlines s = s"
  by (induction s rule: translate_newlines.induct) auto

lemma byte_of_unat: "of_nat (unat (x :: byte)) = x"
  by simp

lemma utf8_char_1: "b0 < 128 \<Longrightarrow> utf8_char b0 = Some [of_nat b0]"
  by (simp add: utf8_char_def)

lemma utf8_char_2:
  assumes "194 \<le> a" "a \<le> 223" "cont b"
  shows "utf8_char ((a - 192) * 64 + (b - 128)) = Some [of_nat a, of_nat b]"
proof -
  define c where "c = (a - 192) * 64 + (b - 128)"
  have b: "b - 128 < 64" "128 \<le> b" using assms(3) unfolding cont_def by linarith+
  have d: "c div 64 = a - 192" "c mod 64 = b - 128" using b(1) by (simp_all add: c_def)
  have lo: "2 * 64 \<le> (a - 192) * 64" using assms(1) by (intro mult_le_mono1) linarith
  have hi: "(a - 192) * 64 \<le> 31 * 64" using assms(2) by (intro mult_le_mono1) linarith
  have r: "\<not> c < 128" "c < 2048" using lo hi b(1) by (simp_all add: c_def)
  have "192 + c div 64 = a" "128 + c mod 64 = b" using d assms(1) b(2) by simp_all
  with r show ?thesis unfolding c_def [symmetric] by (simp add: utf8_char_def)
qed

lemma split3:
  assumes "(y::nat) < 64" "z < 64"
  shows "(x * 4096 + y * 64 + z) div 4096 = x"
    "(x * 4096 + y * 64 + z) div 64 mod 64 = y"
    "(x * 4096 + y * 64 + z) mod 64 = z"
proof -
  have "y * 64 \<le> 63 * 64" using assms(1) by (intro mult_le_mono1) simp
  then have "y * 64 + z < 4096" using assms(2) by simp
  then show "(x * 4096 + y * 64 + z) div 4096 = x" by (simp add: add.assoc)
  have e: "x * 4096 + y * 64 + z = (x * 64 + y) * 64 + z" by simp
  have k: "(k * 64 + z) div 64 = k" "(k * 64 + z) mod 64 = z" for k
    using assms(2) by simp_all
  have "(x * 4096 + y * 64 + z) div 64 = x * 64 + y" unfolding e by (rule k(1))
  then show "(x * 4096 + y * 64 + z) div 64 mod 64 = y" using assms(1) by simp
  show "(x * 4096 + y * 64 + z) mod 64 = z" unfolding e by (rule k(2))
qed

lemma utf8_char_3:
  assumes "224 \<le> a" "a \<le> 239" "cont c"
    and "if a = 224 then 160 \<le> b \<and> b \<le> 191
         else if a = 237 then 128 \<le> b \<and> b \<le> 159 else cont b"
  shows "utf8_char ((a - 224) * 4096 + (b - 128) * 64 + (c - 128))
           = Some [of_nat a, of_nat b, of_nat c]"
proof -
  define n where "n = (a - 224) * 4096 + (b - 128) * 64 + (c - 128)"
  have c: "c - 128 < 64" "128 \<le> c" using assms(3) unfolding cont_def by linarith+
  have b: "b - 128 < 64" "128 \<le> b" using assms(4) by (auto simp: cont_def split: if_splits)
  have v: "valid_char n" unfolding n_def using assms by (rule valid_char_3)
  have d: "n div 4096 = a - 224" "n div 64 mod 64 = b - 128" "n mod 64 = c - 128"
    unfolding n_def using b(1) c(1) by (rule split3)+
  have lo: "2048 \<le> n"
  proof (cases "a = 224")
    case True
    with assms(4) have "32 \<le> b - 128" by simp linarith
    then have "32 * 64 \<le> (b - 128) * 64" by (intro mult_le_mono1)
    then show ?thesis by (simp add: n_def)
  next
    case False
    with assms(1) have "1 * 4096 \<le> (a - 224) * 4096" by (intro mult_le_mono1) linarith
    then show ?thesis by (simp add: n_def)
  qed
  have "(a - 224) * 4096 \<le> 15 * 4096" using assms(2) by (intro mult_le_mono1) linarith
  moreover have "(b - 128) * 64 \<le> 63 * 64" using b(1) by (intro mult_le_mono1) simp
  ultimately have hi: "n < 65536" using c(1) by (simp add: n_def)
  have e: "224 + n div 4096 = a" "128 + n div 64 mod 64 = b" "128 + n mod 64 = c"
    using d assms(1) b(2) c(2) by simp_all
  have "\<not> (55296 \<le> n \<and> n \<le> 57343)" using v by (simp add: valid_char_def)
  with lo hi e show ?thesis
    unfolding n_def [symmetric] by (simp add: utf8_char_def)
qed

lemma split4:
  assumes "(y::nat) < 64" "z < 64" "w < 64"
  shows "(x * 262144 + y * 4096 + z * 64 + w) div 262144 = x"
    "(x * 262144 + y * 4096 + z * 64 + w) div 4096 mod 64 = y"
    "(x * 262144 + y * 4096 + z * 64 + w) div 64 mod 64 = z"
    "(x * 262144 + y * 4096 + z * 64 + w) mod 64 = w"
proof -
  let ?n = "x * 262144 + y * 4096 + z * 64 + w"
  have e: "?n = (x * 64 + y) * 4096 + z * 64 + w" by simp
  have "y * 4096 \<le> 63 * 4096" using assms(1) by (intro mult_le_mono1) simp
  moreover have "z * 64 \<le> 63 * 64" using assms(2) by (intro mult_le_mono1) simp
  ultimately have "y * 4096 + z * 64 + w < 262144" using assms(3) by simp
  then show "?n div 262144 = x" by (simp add: add.assoc)
  have "?n div 4096 = x * 64 + y" unfolding e using assms(2,3) by (rule split3(1))
  then show "?n div 4096 mod 64 = y" using assms(1) by simp
  show "?n div 64 mod 64 = z" unfolding e using assms(2,3) by (rule split3(2))
  show "?n mod 64 = w" unfolding e using assms(2,3) by (rule split3(3))
qed

lemma utf8_char_4:
  assumes "240 \<le> a" "a \<le> 244" "cont c" "cont d"
    and "if a = 240 then 144 \<le> b \<and> b \<le> 191
         else if a = 244 then 128 \<le> b \<and> b \<le> 143 else cont b"
  shows "utf8_char ((a - 240) * 262144 + (b - 128) * 4096 + (c - 128) * 64 + (d - 128))
           = Some [of_nat a, of_nat b, of_nat c, of_nat d]"
proof -
  define n where "n = (a - 240) * 262144 + (b - 128) * 4096 + (c - 128) * 64 + (d - 128)"
  have d: "d - 128 < 64" "128 \<le> d" using assms(4) unfolding cont_def by linarith+
  have c: "c - 128 < 64" "128 \<le> c" using assms(3) unfolding cont_def by linarith+
  have b: "b - 128 < 64" "128 \<le> b" using assms(5) by (auto simp: cont_def split: if_splits)
  have v: "valid_char n" unfolding n_def using assms by (rule valid_char_4)
  have s: "n div 262144 = a - 240" "n div 4096 mod 64 = b - 128"
    "n div 64 mod 64 = c - 128" "n mod 64 = d - 128"
    unfolding n_def using b(1) c(1) d(1) by (rule split4)+
  have lo: "65536 \<le> n"
  proof (cases "a = 240")
    case True
    with assms(5) have "16 \<le> b - 128" by simp linarith
    then have "16 * 4096 \<le> (b - 128) * 4096" by (intro mult_le_mono1)
    then show ?thesis by (simp add: n_def)
  next
    case False
    with assms(1) have "1 * 262144 \<le> (a - 240) * 262144" by (intro mult_le_mono1) linarith
    then show ?thesis by (simp add: n_def)
  qed
  have e: "240 + n div 262144 = a" "128 + n div 4096 mod 64 = b"
    "128 + n div 64 mod 64 = c" "128 + n mod 64 = d"
    using s assms(1) b(2) c(2) d(2) by simp_all
  have "n < 1114112" using v by (simp add: valid_char_def)
  with lo e show ?thesis
    unfolding n_def [symmetric] by (simp add: utf8_char_def)
qed

lemma utf8_encode_decode:
  "utf8_decode bs = Inr s \<Longrightarrow> utf8_encode s = Inr bs"
proof (induction bs arbitrary: s rule: utf8_decode.induct)
  case 1
  then show ?case by simp
next
  case (2 x0 xs)
  show ?case
  proof (cases "unat x0 < 0x80")
    case True
    with "2.prems" obtain cs where cs: "utf8_decode xs = Inr cs" "s = unat x0 # cs"
      by (auto simp: Let_def split: sum.splits)
    from True have "utf8_char (unat x0) = Some [x0]" by (simp add: utf8_char_1)
    with "2.IH"(1) [OF refl True cs(1)] cs(2) show ?thesis by simp
  next
    case F1: False
    show ?thesis
    proof (cases "0xC2 \<le> unat x0 \<and> unat x0 \<le> 0xDF")
      case True
      with F1 "2.prems" obtain x1 ys cs where xs: "xs = x1 # ys" and c1: "cont (unat x1)"
        and cs: "utf8_decode ys = Inr cs"
        and s: "s = ((unat x0 - 0xC0) * 64 + (unat x1 - 0x80)) # cs"
        by (auto simp: Let_def split: sum.splits list.splits if_splits)
      have "utf8_char ((unat x0 - 192) * 64 + (unat x1 - 128)) = Some [x0, x1]"
        using True c1 utf8_char_2 [of "unat x0" "unat x1"] by simp
      with "2.IH"(2) [OF refl F1 True xs refl c1 cs] s xs show ?thesis by simp
    next
      case F2: False
      show ?thesis
      proof (cases "0xE0 \<le> unat x0 \<and> unat x0 \<le> 0xEF")
        case True
        with F1 F2 "2.prems" obtain x1 x2 ys cs where xs: "xs = x1 # x2 # ys"
          and c: "(if unat x0 = 0xE0 then 0xA0 \<le> unat x1 \<and> unat x1 \<le> 0xBF
                  else if unat x0 = 0xED then 0x80 \<le> unat x1 \<and> unat x1 \<le> 0x9F
                  else cont (unat x1)) \<and> cont (unat x2)"
          and cs: "utf8_decode ys = Inr cs"
          and s: "s = ((unat x0 - 0xE0) * 4096 + (unat x1 - 0x80) * 64 + (unat x2 - 0x80)) # cs"
          by (auto simp: Let_def split: sum.splits list.splits if_splits)
        have "utf8_char ((unat x0 - 224) * 4096 + (unat x1 - 128) * 64 + (unat x2 - 128))
                = Some [x0, x1, x2]"
          using True c utf8_char_3 [of "unat x0" "unat x2" "unat x1"] by simp
        with "2.IH"(3) [OF refl F1 F2 True xs refl refl refl c cs] s xs show ?thesis by simp
      next
        case F3: False
        show ?thesis
        proof (cases "0xF0 \<le> unat x0 \<and> unat x0 \<le> 0xF4")
          case True
          with F1 F2 F3 "2.prems" obtain x1 x2 x3 ys cs where xs: "xs = x1 # x2 # x3 # ys"
            and c: "(if unat x0 = 0xF0 then 0x90 \<le> unat x1 \<and> unat x1 \<le> 0xBF
                    else if unat x0 = 0xF4 then 0x80 \<le> unat x1 \<and> unat x1 \<le> 0x8F
                    else cont (unat x1)) \<and> cont (unat x2) \<and> cont (unat x3)"
            and cs: "utf8_decode ys = Inr cs"
            and s: "s = ((unat x0 - 0xF0) * 262144 + (unat x1 - 0x80) * 4096
                         + (unat x2 - 0x80) * 64 + (unat x3 - 0x80)) # cs"
            by (auto simp: Let_def split: sum.splits list.splits if_splits)
          have "utf8_char ((unat x0 - 240) * 262144 + (unat x1 - 128) * 4096
                         + (unat x2 - 128) * 64 + (unat x3 - 128)) = Some [x0, x1, x2, x3]"
            using True c utf8_char_4 [of "unat x0" "unat x2" "unat x3" "unat x1"] by simp
          with "2.IH"(4) [OF refl F1 F2 F3 True xs refl refl refl refl refl c cs] s xs
          show ?thesis by simp
        next
          case False
          with F1 F2 F3 "2.prems" show ?thesis by (simp add: Let_def split: if_splits)
        qed
      qed
    qed
  qed
qed

text \<open>
  C1, as amended. Take a UTF-8 file whose text has at least two different characters
  and no carriage return. \<open>compress_file\<close> writes a container for it, and
  \<open>decompress_file\<close> writes from that container a file with exactly the bytes of the
  original file: the text is recovered exactly.
\<close>

theorem compress_decompress_roundtrip:
  assumes "fs path = Some data" "utf8_decode data = Inr T"
    and "13 \<notin> set T" "2 \<le> card (set T)"
  shows "\<exists>container.
           compress_file fs path output_path
             = (Inr (compress_output_path path output_path),
                fs(compress_output_path path output_path \<mapsto> container))
         \<and> decompress_file (fs(compress_output_path path output_path \<mapsto> container))
               (compress_output_path path output_path) output_path'
             = (Inr (decompress_output_path (compress_output_path path output_path) output_path'),
                (fs(compress_output_path path output_path \<mapsto> container))
                  (decompress_output_path (compress_output_path path output_path) output_path'
                     \<mapsto> data))"
proof -
  have t: "T = translate_newlines T" using assms(3) by (simp add: translate_newlines_no_cr)
  have e: "utf8_encode T = Inr data" using assms(2) by (rule utf8_encode_decode)
  from roundtrip_text
    [where fs = fs and path = path and data = data and decoded = T and T = T
       and output_path = output_path and output_path' = output_path',
     OF assms(1,2) t assms(4)]
  show ?thesis using e by auto
qed

lemma utf8_ab: "utf8_decode [97, 98] = Inr [97, 98]" "utf8_encode [97, 98] = Inr [97, 98]"
  by (simp_all add: utf8_char_def)

theorem compress_decompress_roundtrip_witness:
  "[''a.txt'' \<mapsto> [97, 98]] ''a.txt'' = Some [97, 98 :: byte]
   \<and> utf8_decode [97, 98] = Inr [97, 98]
   \<and> 13 \<notin> set [97 :: nat, 98]
   \<and> 2 \<le> card (set [97 :: nat, 98])
   \<and> (\<exists>container.
         compress_file [''a.txt'' \<mapsto> [97, 98]] ''a.txt'' None
           = (Inr ''a.txt.huffman'', [''a.txt'' \<mapsto> [97, 98], ''a.txt.huffman'' \<mapsto> container])
       \<and> decompress_file [''a.txt'' \<mapsto> [97, 98], ''a.txt.huffman'' \<mapsto> container]
             ''a.txt.huffman'' None
           = (Inr ''a.txt.decompressed'',
              [''a.txt'' \<mapsto> [97, 98], ''a.txt.huffman'' \<mapsto> container,
               ''a.txt.decompressed'' \<mapsto> [97, 98]]))"
proof -
  have 1: "[''a.txt'' \<mapsto> [97, 98]] ''a.txt'' = Some [97, 98 :: byte]" by simp
  have 3: "13 \<notin> set [97 :: nat, 98]" by simp
  have 4: "2 \<le> card (set [97 :: nat, 98])" by simp
  have cp: "compress_output_path ''a.txt'' None = ''a.txt.huffman''"
    by (simp add: compress_output_path_def)
  have dp: "decompress_output_path ''a.txt.huffman'' None = ''a.txt.decompressed''"
    by (simp add: decompress_output_path_def)
  from compress_decompress_roundtrip
    [where fs = "[''a.txt'' \<mapsto> [97, 98]]" and path = "''a.txt''" and data = "[97, 98]"
       and T = "[97, 98]" and output_path = None
       and output_path' = None, OF 1 utf8_ab(1) 3 4]
  show ?thesis
    unfolding cp dp using 1 3 4 utf8_ab(1) by simp
qed

text \<open>
  The claim C1 as stated fails in two ways. On the empty text \<open>compress_file\<close> raises
  \<open>IndexError\<close> and writes no container, so nothing can be decompressed. And a file
  with a carriage return does not come back: the file with the bytes of \<open>"a\r\nb"\<close> is
  read as the text \<open>"a\nb"\<close>, and the decompressed file holds the bytes of \<open>"a\nb"\<close>.
\<close>

lemma example_crlf:
  "snd (decompress_file (snd (compress_file [''f'' \<mapsto> [97, 13, 10, 98]] ''f'' None))
          ''f.huffman'' None) ''f.decompressed'' = Some [97, 10, 98]"
proof -
  have 1: "[''f'' \<mapsto> [97, 13, 10, 98]] ''f'' = Some [97, 13, 10, 98 :: byte]" by simp
  have 2: "utf8_decode [97, 13, 10, 98] = Inr [97, 13, 10, 98]" by simp
  have 3: "[97, 10, 98] = translate_newlines [97, 13, 10, 98]" by simp
  have 4: "2 \<le> card (set [97 :: nat, 10, 98])" by simp
  have 5: "utf8_encode [97, 10, 98] = Inr [97, 10, 98]" by (simp add: utf8_char_def)
  have cp: "compress_output_path ''f'' None = ''f.huffman''"
    by (simp add: compress_output_path_def)
  have dp: "decompress_output_path ''f.huffman'' None = ''f.decompressed''"
    by (simp add: decompress_output_path_def)
  from roundtrip_text
    [where fs = "[''f'' \<mapsto> [97, 13, 10, 98]]" and path = "''f''" and data = "[97, 13, 10, 98]"
       and decoded = "[97, 13, 10, 98]" and T = "[97, 10, 98]" and output_path = None
       and output_path' = None, OF 1 2 3 4]
  show ?thesis unfolding cp dp using 5 by auto
qed

theorem roundtrip_empty_text_counterexample:
  "fst (compress_file [''t'' \<mapsto> []] ''t'' None) = Inl (IndexError ''list index out of range'')
   \<and> snd (compress_file [''t'' \<mapsto> []] ''t'' None) ''t.huffman'' = None
   \<and> snd (decompress_file (snd (compress_file [''f'' \<mapsto> [97, 13, 10, 98]] ''f'' None))
          ''f.huffman'' None) ''f.decompressed'' = Some [97, 10, 98]
   \<and> [97, 10, 98] \<noteq> [97, 13, 10, 98 :: byte]"
  using example_crlf by (simp add: compress_file_empty)

subsection \<open>The integrity check\<close>

lemma hex_of_word_hex:
  "\<forall>c\<in>set (hex_of_word w). (48 \<le> c \<and> c \<le> 57) \<or> (97 \<le> c \<and> c \<le> 102)"
  using unat_and_15 hex_digit_range by (auto simp: hex_of_word_def)

lemma sha256_hexdigest_hex:
  "\<forall>c\<in>set (sha256_hexdigest m). (48 \<le> c \<and> c \<le> 57) \<or> (97 \<le> c \<and> c \<le> 102)"
  using hex_of_word_hex by (auto simp: sha256_hexdigest_def)

lemma decompress_file_Inl:
  assumes "decompress_file fs path output_path = (Inl e, fs')"
  shows "fs' = fs"
proof (cases "fs path")
  case None
  with assms show ?thesis by (simp add: decompress_file_def)
next
  case (Some data)
  show ?thesis
  proof (cases "read_container data")
    case (Inl e1)
    with Some assms show ?thesis by (simp add: decompress_file_def)
  next
    case (Inr hdr)
    obtain file_hash frequency byte_array where hdr: "hdr = (file_hash, frequency, byte_array)"
      by (cases hdr)
    show ?thesis
    proof (cases "decode_payload frequency byte_array")
      case (Inl e2)
      with Some Inr hdr assms show ?thesis by (simp add: decompress_file_def)
    next
      case dec: (Inr decompressed_text)
      show ?thesis
      proof (cases "utf8_encode decompressed_text")
        case (Inl e3)
        with Some Inr hdr dec assms show ?thesis by (simp add: decompress_file_def)
      next
        case enc: (Inr raw)
        from Some Inr hdr dec enc assms show ?thesis
          by (simp add: decompress_file_checked
              [where data = data and file_hash = file_hash and frequency = frequency
                 and byte_array = byte_array and decompressed_text = decompressed_text
                 and raw = raw] split: if_splits)
      qed
    qed
  qed
qed

text \<open>
  C9. When \<open>decompress_file\<close> has read the header and decoded a text, it computes the
  hash of the decoded text and compares it with the stored one: it raises
  \<open>ValueError("File integrity check failed")\<close> exactly when they differ, and then the
  file system is unchanged; when they are equal it writes the output file. Whenever
  \<open>decompress_file\<close> fails (with a failure the model covers), no file has been written.
\<close>

theorem integrity_verification:
  "(fs path = Some data
      \<and> read_container data = Inr (file_hash, frequency, byte_array)
      \<and> decode_payload frequency byte_array = Inr decompressed_text
      \<and> utf8_encode decompressed_text = Inr raw
    \<longrightarrow> decompress_file fs path output_path =
          (if sha256_hexdigest raw \<noteq> file_hash
           then (Inl (ValueError ''File integrity check failed''), fs)
           else (Inr (decompress_output_path path output_path),
                 fs(decompress_output_path path output_path \<mapsto> raw))))
   \<and> (decompress_file fs path output_path = (Inl e, fs') \<and> e \<noteq> Unmodelled \<longrightarrow> fs' = fs)"
  using decompress_file_checked decompress_file_Inl by blast

lemma example_payload: "decode_payload [([97], 1), ([98], 1)] [6, 64] = Inr [97, 98]"
  by code_simp

lemma example_bad_header:
  "read_container (ascii_bytes [120] @ 10 # ascii_bytes (json_dumps [([97], 1), ([98], 1)]) @ 10 # [6, 64])
     = Inr ([120], [([97], 1), ([98], 1)], [6, 64])"
  by (rule read_container_header) (simp_all add: valid_char_def printable_def)

theorem integrity_verification_witness:
  "decompress_file
     [''c'' \<mapsto> ascii_bytes (sha256_hexdigest [97, 98]) @ 10
               # ascii_bytes (json_dumps [([97], 1), ([98], 1)]) @ 10 # [6, 64]]
     ''c'' (Some ''out'')
   = (Inr ''out'',
      [''c'' \<mapsto> ascii_bytes (sha256_hexdigest [97, 98]) @ 10
               # ascii_bytes (json_dumps [([97], 1), ([98], 1)]) @ 10 # [6, 64],
       ''out'' \<mapsto> [97, 98]])
   \<and> decompress_file
     [''c'' \<mapsto> ascii_bytes [120] @ 10 # ascii_bytes (json_dumps [([97], 1), ([98], 1)]) @ 10 # [6, 64]]
     ''c'' (Some ''out'')
   = (Inl (ValueError ''File integrity check failed''),
      [''c'' \<mapsto> ascii_bytes [120] @ 10 # ascii_bytes (json_dumps [([97], 1), ([98], 1)]) @ 10 # [6, 64]])"
proof -
  let ?f = "[([97], 1), ([98::nat], 1::int)]"
  let ?good = "ascii_bytes (sha256_hexdigest [97, 98]) @ 10 # ascii_bytes (json_dumps ?f) @ 10 # [6, 64]"
  let ?bad = "ascii_bytes [120] @ 10 # ascii_bytes (json_dumps ?f) @ 10 # [6, 64]"
  have enc: "utf8_encode [97, 98] = Inr [97, 98]" by (simp add: utf8_char_def)
  have good: "read_container ?good = Inr (sha256_hexdigest [97, 98], ?f, [6, 64])"
    by (rule read_container_written) (simp_all add: valid_char_def)
  have ne: "sha256_hexdigest [97, 98] \<noteq> [120]"
  proof
    assume "sha256_hexdigest [97, 98] = [120]"
    then have "(120::nat) \<in> set (sha256_hexdigest [97, 98])" by simp
    with sha256_hexdigest_hex [of "[97, 98]"]
    have "(48 \<le> (120::nat) \<and> (120::nat) \<le> 57) \<or> (97 \<le> (120::nat) \<and> (120::nat) \<le> 102)"
      by blast
    then show False by simp
  qed
  have a: "decompress_file [''c'' \<mapsto> ?good] ''c'' (Some ''out'')
             = (Inr ''out'', [''c'' \<mapsto> ?good, ''out'' \<mapsto> [97, 98]])"
    using integrity_verification
      [where fs = "[''c'' \<mapsto> ?good]" and path = "''c''" and data = ?good
         and file_hash = "sha256_hexdigest [97, 98]" and frequency = ?f
         and byte_array = "[6, 64]" and decompressed_text = "[97, 98]" and raw = "[97, 98]"
         and output_path = "Some ''out''"]
      good example_payload enc
    by (simp add: decompress_output_path_def)
  have b: "decompress_file [''c'' \<mapsto> ?bad] ''c'' (Some ''out'')
             = (Inl (ValueError ''File integrity check failed''), [''c'' \<mapsto> ?bad])"
    using integrity_verification
      [where fs = "[''c'' \<mapsto> ?bad]" and path = "''c''" and data = ?bad
         and file_hash = "[120]" and frequency = ?f
         and byte_array = "[6, 64]" and decompressed_text = "[97, 98]" and raw = "[97, 98]"
         and output_path = "Some ''out''"]
      example_bad_header example_payload enc ne
    by simp
  from a b show ?thesis by simp
qed

subsection \<open>The frequency line\<close>

lemma frequency_line_bytes:
  "utf8_encode (json_dumps frequency) = Inr (ascii_bytes (json_dumps frequency))
   \<and> 10 \<notin> set (ascii_bytes (json_dumps frequency))"
proof -
  have p: "\<forall>c\<in>set (json_dumps frequency). c < 128 \<and> c \<noteq> 10"
    using json_dumps_printable printable_facts(1) by blast
  then have "\<forall>c\<in>set (json_dumps frequency). c < 128" by blast
  then have "utf8_encode (json_dumps frequency) = Inr (ascii_bytes (json_dumps frequency))"
    by (rule utf8_encode_ascii)
  moreover have "10 \<notin> set (ascii_bytes (json_dumps frequency))"
    using p by (rule ascii_bytes_no_newline)
  ultimately show ?thesis by simp
qed

text \<open>
  C10. For every text of valid characters (every text read from a UTF-8 file is one),
  the JSON text of its frequency table encodes to bytes without a newline byte, and the
  container written with it is read back by \<open>decompress_file\<close> with the same frequency
  table: the same keys, in the same order, with the same counts.
\<close>

theorem frequency_line_framing:
  assumes "\<forall>c\<in>set T. valid_char c"
  shows "\<exists>freq_json.
           utf8_encode (json_dumps (make_frequency_dict T)) = Inr freq_json
         \<and> 10 \<notin> set freq_json
         \<and> (\<forall>m byte_array. \<exists>container.
               write_container (sha256_hexdigest m) (make_frequency_dict T) byte_array
                 = (Inr (), container)
             \<and> read_container container
                 = Inr (sha256_hexdigest m, make_frequency_dict T, byte_array))"
proof -
  have "\<forall>m byte_array. \<exists>container.
               write_container (sha256_hexdigest m) (make_frequency_dict T) byte_array
                 = (Inr (), container)
             \<and> read_container container
                 = Inr (sha256_hexdigest m, make_frequency_dict T, byte_array)"
    using write_container_ok read_container_compressed [OF assms] by blast
  with frequency_line_bytes [of "make_frequency_dict T"] show ?thesis by blast
qed

theorem frequency_line_framing_witness:
  "valid_char 97 \<and> valid_char 10 \<and> valid_char 13 \<and> valid_char 34
   \<and> make_frequency_dict [97, 10, 97, 13, 34] = [([97], 2), ([10], 1), ([13], 1), ([34], 1)]
   \<and> (\<exists>freq_json.
           utf8_encode (json_dumps (make_frequency_dict [97, 10, 97, 13, 34])) = Inr freq_json
         \<and> 10 \<notin> set freq_json
         \<and> (\<exists>container.
               write_container (sha256_hexdigest []) (make_frequency_dict [97, 10, 97, 13, 34]) [1, 10, 2]
                 = (Inr (), container)
             \<and> read_container container
                 = Inr (sha256_hexdigest [], [([97], 2), ([10], 1), ([13], 1), ([34], 1)],
                        [1, 10, 2])))"
proof -
  have v: "\<forall>c\<in>set [97, 10, 97, 13, 34]. valid_char c" by (simp add: valid_char_def)
  have f: "make_frequency_dict [97, 10, 97, 13, 34] = [([97], 2), ([10], 1), ([13], 1), ([34], 1)]"
    by (simp add: make_frequency_dict_def)
  from frequency_line_framing [OF v] obtain freq_json where
    1: "utf8_encode (json_dumps (make_frequency_dict [97, 10, 97, 13, 34])) = Inr freq_json"
    and 2: "10 \<notin> set freq_json"
    and 3: "\<forall>m byte_array. \<exists>container.
               write_container (sha256_hexdigest m) (make_frequency_dict [97, 10, 97, 13, 34]) byte_array
                 = (Inr (), container)
             \<and> read_container container
                 = Inr (sha256_hexdigest m, make_frequency_dict [97, 10, 97, 13, 34], byte_array)"
    by blast
  from 3 obtain container where
    "write_container (sha256_hexdigest []) (make_frequency_dict [97, 10, 97, 13, 34]) [1, 10, 2]
                 = (Inr (), container)"
    "read_container container
       = Inr (sha256_hexdigest [], make_frequency_dict [97, 10, 97, 13, 34], [1, 10, 2])"
    by blast
  moreover have "valid_char 97 \<and> valid_char 10 \<and> valid_char 13 \<and> valid_char 34"
    by (simp add: valid_char_def)
  ultimately show ?thesis using f 1 2 by (metis f)
qed

subsection \<open>The code table on the two paths\<close>

lemma code_table_nonempty:
  "frequency \<noteq> [] \<Longrightarrow> \<exists>codes. code_table frequency = Inr codes"
  using build_tree_nonempty [of frequency] by (auto simp: code_table_def)

text \<open>
  C6. For a non-empty frequency table (distinct keys of valid characters), the table
  that \<open>decompress_file\<close> reads back from the container is the table \<open>compress_file\<close>
  wrote, with its keys in the same order, so the code table built from it is the code
  table built on the compression path.
\<close>

theorem rebuilt_code_table:
  assumes "distinct (map fst frequency)"
    and "\<forall>kv\<in>set frequency. \<forall>c\<in>set (fst kv). valid_char c"
    and "frequency \<noteq> []"
  shows "\<exists>container frequency' codes.
           write_container (sha256_hexdigest m) frequency byte_array = (Inr (), container)
         \<and> read_container container = Inr (sha256_hexdigest m, frequency', byte_array)
         \<and> code_table frequency = Inr codes
         \<and> code_table frequency' = Inr codes"
  using write_container_ok [of m frequency byte_array]
    read_container_written [OF assms(1,2), of m byte_array]
    code_table_nonempty [OF assms(3)]
  by blast

theorem rebuilt_code_table_witness:
  "distinct (map fst [([97], 3), ([98], 2), ([99::nat], 1::int)])
   \<and> valid_char 97 \<and> valid_char 98 \<and> valid_char 99
   \<and> [([97], 3), ([98], 2), ([99::nat], 1::int)] \<noteq> []
   \<and> (\<exists>container frequency' codes.
           write_container (sha256_hexdigest []) [([97], 3), ([98], 2), ([99], 1)] [5, 160]
             = (Inr (), container)
         \<and> read_container container = Inr (sha256_hexdigest [], frequency', [5, 160])
         \<and> code_table [([97], 3), ([98], 2), ([99], 1)] = Inr codes
         \<and> code_table frequency' = Inr codes)"
proof -
  have 1: "distinct (map fst [([97], 3), ([98], 2), ([99::nat], 1::int)])" by simp
  have 2: "\<forall>kv\<in>set [([97], 3), ([98], 2), ([99::nat], 1::int)]. \<forall>c\<in>set (fst kv). valid_char c"
    by (simp add: valid_char_def)
  have 3: "[([97], 3), ([98], 2), ([99::nat], 1::int)] \<noteq> []" by simp
  have 4: "valid_char 97 \<and> valid_char 98 \<and> valid_char 99" by (simp add: valid_char_def)
  from rebuilt_code_table [OF 1 2 3, of "[]" "[5, 160]"] 1 3 4 show ?thesis
    by (simp only: simp_thms)
qed

subsection \<open>Decoding never fails on a tree with two or more leaves\<close>










subsection \<open>A flipped payload bit\<close>















end
